theory Spec2Isabelle
  imports Complex_Main "HOL-Library.Multiset" "HOL-Library.List_Lexorder"
begin

section \<open>Errors raised by the programs\<close>

text \<open>
  Every \<^verbatim>\<open>throw\<close> of the JavaScript sources is a value of this type.
  \<^item> \<open>DivisionByZero\<close>: \<^verbatim>\<open>Error('Division by zero')\<close> of the \<^verbatim>\<open>Frac\<close> constructor and of \<^verbatim>\<open>div\<close>;
  \<^item> \<open>RangeError\<close>: the engine's error for a BigInt division \<^verbatim>\<open>a / 0n\<close>;
  \<^item> \<open>TypeError\<close>: the engine's error for BigInt arithmetic on \<^verbatim>\<open>undefined\<close>
    (an array read out of range that flows into arithmetic);
  \<^item> \<open>NonIntegerResult\<close>: \<^verbatim>\<open>Error('Non-integer constant term: ...')\<close>;
  \<^item> \<open>SingularSystem\<close>: \<^verbatim>\<open>Error('Singular matrix (no unique solution)')\<close>;
  \<^item> \<open>NoConsistentSubset\<close>: \<^verbatim>\<open>Error('No consistent (integer) subsets found')\<close> and
    \<^verbatim>\<open>Error('No solvable subsets found')\<close>;
  \<^item> \<open>WrongSubsetSize\<close>: \<^verbatim>\<open>Error('--pick must specify exactly k=... x-keys; got ...')\<close>;
  \<^item> \<open>UnknownKey\<close>: \<^verbatim>\<open>Error('--pick refers to missing x=...')\<close>;
  \<^item> \<open>PickNonInteger\<close>: \<^verbatim>\<open>Error('--pick contains non-integer: ...')\<close>.
\<close>

datatype error =
    DivisionByZero
  | RangeError
  | TypeError
  | NonIntegerResult
  | SingularSystem
  | NoConsistentSubset
  | WrongSubsetSize
  | UnknownKey
  | PickNonInteger

definition bind_err :: "error + 'a \<Rightarrow> ('a \<Rightarrow> error + 'b) \<Rightarrow> error + 'b" where
  "bind_err m f = (case m of Inl e \<Rightarrow> Inl e | Inr v \<Rightarrow> f v)"

section \<open>BigInt helpers\<close>

text \<open>
  BigInt values are unbounded integers. BigInt \<^verbatim>\<open>/\<close> and \<^verbatim>\<open>%\<close> truncate towards zero;
  the remainder takes the sign of the dividend.
\<close>

definition bi_div :: "int \<Rightarrow> int \<Rightarrow> int" where
  "bi_div a b = sgn a * sgn b * (\<bar>a\<bar> div \<bar>b\<bar>)"

definition bi_rem :: "int \<Rightarrow> int \<Rightarrow> int" where
  "bi_rem a b = sgn a * (\<bar>a\<bar> mod \<bar>b\<bar>)"

definition absBI :: "int \<Rightarrow> int" where
  "absBI a = (if a < 0 then - a else a)"

text \<open>The \<^verbatim>\<open>while (b !== 0n)\<close> loop of \<^verbatim>\<open>gcdBI\<close>.\<close>

function gcdBI_loop :: "int \<Rightarrow> int \<Rightarrow> int" where
  "gcdBI_loop a b = (if b = 0 then a else gcdBI_loop b (bi_rem a b))"
  by pat_completeness auto
termination
proof (relation "measure (\<lambda>(a, b). nat \<bar>b\<bar>)")
  show "wf (measure (\<lambda>(a, b). nat \<bar>b\<bar>))" by simp
next
  fix a b :: int
  assume "b \<noteq> 0"
  then have "\<bar>a\<bar> mod \<bar>b\<bar> < \<bar>b\<bar>" by simp
  moreover have "0 \<le> \<bar>a\<bar> mod \<bar>b\<bar>"
    using \<open>b \<noteq> 0\<close> by simp
  then have "\<bar>bi_rem a b\<bar> \<le> \<bar>a\<bar> mod \<bar>b\<bar>"
    by (cases "a = 0") (simp_all add: bi_rem_def abs_mult abs_sgn_eq)
  ultimately show "((b, bi_rem a b), (a, b)) \<in> measure (\<lambda>(a, b). nat \<bar>b\<bar>)"
    by simp
qed

declare gcdBI_loop.simps [simp del]

definition gcdBI :: "int \<Rightarrow> int \<Rightarrow> int" where
  "gcdBI a b = gcdBI_loop (absBI a) (absBI b)"

section \<open>Fractions over BigInt\<close>

text \<open>
  The class \<^verbatim>\<open>Frac\<close> with its fields \<^verbatim>\<open>n\<close> and \<^verbatim>\<open>d\<close> (named \<open>frac_n\<close> and \<open>frac_d\<close>
  here). \<open>mkFrac\<close> is the constructor \<^verbatim>\<open>new Frac(n, d)\<close>.
\<close>

record Frac =
  frac_n :: int
  frac_d :: int

definition mkFrac :: "int \<Rightarrow> int \<Rightarrow> error + Frac" where
  "mkFrac n d =
     (if d = 0 then Inl DivisionByZero
      else
        let n1 = (if d < 0 then - n else n);
            d1 = (if d < 0 then - d else d);
            g = gcdBI (absBI n1) d1
        in if g = 0 then Inl RangeError
           else Inr \<lparr>frac_n = bi_div n1 g, frac_d = bi_div d1 g\<rparr>)"

definition fromBI :: "int \<Rightarrow> error + Frac" where
  "fromBI x = mkFrac x 1"

definition add :: "Frac \<Rightarrow> Frac \<Rightarrow> error + Frac" where
  "add a o' = mkFrac (frac_n a * frac_d o' + frac_n o' * frac_d a) (frac_d a * frac_d o')"

definition sub :: "Frac \<Rightarrow> Frac \<Rightarrow> error + Frac" where
  "sub a o' = mkFrac (frac_n a * frac_d o' - frac_n o' * frac_d a) (frac_d a * frac_d o')"

definition mul :: "Frac \<Rightarrow> Frac \<Rightarrow> error + Frac" where
  "mul a o' = mkFrac (frac_n a * frac_n o') (frac_d a * frac_d o')"

definition div_frac :: "Frac \<Rightarrow> Frac \<Rightarrow> error + Frac" where
  "div_frac a o' =
     (if frac_n o' = 0 then Inl DivisionByZero
      else mkFrac (frac_n a * frac_d o') (frac_d a * frac_n o'))"

definition isInt :: "Frac \<Rightarrow> bool" where
  "isInt a \<longleftrightarrow> frac_d a = 1"

text \<open>The invariant of the data model: positive denominator, lowest terms.\<close>

definition frac_inv :: "Frac \<Rightarrow> bool" where
  "frac_inv a \<longleftrightarrow> 0 < frac_d a \<and> gcd (frac_n a) (frac_d a) = 1"

text \<open>The rational number a fraction stands for.\<close>

definition val :: "Frac \<Rightarrow> real" where
  "val a = of_int (frac_n a) / of_int (frac_d a)"

section \<open>Lagrange interpolation at zero (Problem.js)\<close>

text \<open>A point \<^verbatim>\<open>{ x, y }\<close> with BigInt coordinates.\<close>

record point =
  px :: int
  py :: int

text \<open>
  The inner loop of \<^verbatim>\<open>constantViaLagrange\<close> over \<open>j = 0 .. k - 1\<close>, skipping \<open>j = i\<close>:
  it returns the pair \<open>(num, den)\<close>.
\<close>

definition lagrange_num_den :: "int list \<Rightarrow> nat \<Rightarrow> int \<times> int" where
  "lagrange_num_den xs i =
     fold (\<lambda>j (num, den).
             if j = i then (num, den)
             else (num * (- (xs ! j)), den * (xs ! i - xs ! j)))
          [0..<length xs] (1, 1)"

text \<open>The outer loop over \<open>i\<close>, from the accumulator \<open>acc\<close>.\<close>

fun lagrange_loop :: "int list \<Rightarrow> int list \<Rightarrow> nat list \<Rightarrow> Frac \<Rightarrow> error + Frac" where
  "lagrange_loop xs ys [] acc = Inr acc"
| "lagrange_loop xs ys (i # is) acc =
     (case lagrange_num_den xs i of
        (num, den) \<Rightarrow>
          bind_err (mkFrac num den) (\<lambda>li0.
          bind_err (fromBI (ys ! i)) (\<lambda>yi.
          bind_err (mul li0 yi) (\<lambda>t.
          bind_err (add acc t) (\<lambda>acc'.
          lagrange_loop xs ys is acc')))))"

definition constantViaLagrange :: "point list \<Rightarrow> error + int" where
  "constantViaLagrange points =
     (let k = length points;
          xs = map px points;
          ys = map py points
      in bind_err (fromBI 0) (\<lambda>acc0.
         bind_err (lagrange_loop xs ys [0..<k] acc0) (\<lambda>acc.
         if \<not> isInt acc then Inl NonIntegerResult else Inr (frac_n acc))))"

section \<open>Subset generation (k-combinations)\<close>

text \<open>
  The generator \<^verbatim>\<open>kCombinations(arr, k)\<close> uses \<^verbatim>\<open>arr\<close> only for its length \<open>n\<close>.
  \<open>kc_scan\<close> is the loop \<^verbatim>\<open>while (i >= 0 && idx[i] === i + n - k) i--\<close>, started at
  \<open>i = c - 1\<close>; it returns \<open>None\<close> when it ends with \<open>i < 0\<close>. The comparison is made on
  integers: \<open>i + n - k\<close> is negative when \<open>k > n\<close>.
\<close>

fun kc_scan :: "nat \<Rightarrow> nat \<Rightarrow> nat list \<Rightarrow> nat \<Rightarrow> nat option" where
  "kc_scan n k idx 0 = None"
| "kc_scan n k idx (Suc i) =
     (if int (idx ! i) = int i + int n - int k then kc_scan n k idx i else Some i)"

text \<open>
  One turn of the \<^verbatim>\<open>while (true)\<close> loop after the \<^verbatim>\<open>yield\<close>: \<open>None\<close> when the generator
  returns, otherwise the next index array
  (\<^verbatim>\<open>idx[i]++; for (j = i + 1; j < k; j++) idx[j] = idx[j - 1] + 1\<close>).
\<close>

definition kc_next :: "nat \<Rightarrow> nat \<Rightarrow> nat list \<Rightarrow> nat list option" where
  "kc_next n k idx =
     (case kc_scan n k idx k of
        None \<Rightarrow> None
      | Some i \<Rightarrow>
          Some (fold (\<lambda>j a. a[j := a ! (j - 1) + 1]) [i + 1..<k] (idx[i := idx ! i + 1])))"

text \<open>
  All arrays the generator yields from the index array \<open>idx\<close> on, in order. The generator
  does not return when \<open>k > n\<close>; then the value is \<open>None\<close>.
\<close>

partial_function (option) kc_from :: "nat \<Rightarrow> nat \<Rightarrow> nat list \<Rightarrow> nat list list option" where
  "kc_from n k idx =
     (case kc_next n k idx of
        None \<Rightarrow> Some [idx]
      | Some idx' \<Rightarrow> Option.bind (kc_from n k idx') (\<lambda>rest. Some (idx # rest)))"

declare kc_from.simps [code]

definition kCombinations :: "nat \<Rightarrow> nat \<Rightarrow> nat list list option" where
  "kCombinations n k = kc_from n k [0..<k]"

section \<open>Voting over all subsets (Problem.js)\<close>

text \<open>\<^verbatim>\<open>BigInt.prototype.toString()\<close>: the decimal digits, with a minus sign when negative.\<close>

definition digit_char :: "nat \<Rightarrow> char" where
  "digit_char v = char_of (48 + v)"

fun nat_toString :: "nat \<Rightarrow> string" where
  "nat_toString v =
     (if v < 10 then [digit_char v] else nat_toString (v div 10) @ [digit_char (v mod 10)])"

declare nat_toString.simps [simp del]

definition toStringBI :: "int \<Rightarrow> string" where
  "toStringBI v = (if v < 0 then CHR ''-'' # nat_toString (nat (- v)) else nat_toString (nat v))"

text \<open>
  A JavaScript \<^verbatim>\<open>Map\<close> keeps its entries in insertion order: an association list with
  distinct keys. \<^verbatim>\<open>set\<close> on a present key replaces the value in place, on an absent key
  it appends the entry.
\<close>

fun map_set :: "('k \<times> 'v) list \<Rightarrow> 'k \<Rightarrow> 'v \<Rightarrow> ('k \<times> 'v) list" where
  "map_set [] key v = [(key, v)]"
| "map_set ((key', v') # m) key v =
     (if key' = key then (key, v) # m else (key', v') # map_set m key v)"

definition map_has :: "('k \<times> 'v) list \<Rightarrow> 'k \<Rightarrow> bool" where
  "map_has m key \<longleftrightarrow> map_of m key \<noteq> None"

text \<open>The two maps \<^verbatim>\<open>counts\<close> and \<^verbatim>\<open>example\<close> of the voting loop.\<close>

record vote_state =
  counts :: "(string \<times> nat) list"
  example :: "(string \<times> nat list) list"

definition vote_init :: vote_state where
  "vote_init = \<lparr>counts = [], example = []\<rparr>"

text \<open>
  The body of the loop \<^verbatim>\<open>for (const combo of kCombinations(idxs, k))\<close>. An index outside
  \<^verbatim>\<open>points\<close> gives \<^verbatim>\<open>undefined\<close>, on which \<^verbatim>\<open>constantViaLagrange\<close> raises inside the
  \<^verbatim>\<open>try\<close>; the \<^verbatim>\<open>catch\<close> ignores every error.
\<close>

definition vote_step :: "point list \<Rightarrow> nat list \<Rightarrow> vote_state \<Rightarrow> vote_state" where
  "vote_step points combo st =
     (if \<exists>i \<in> set combo. length points \<le> i then st
      else
        case constantViaLagrange (map (\<lambda>i. points ! i) combo) of
          Inl e \<Rightarrow> st
        | Inr c \<Rightarrow>
            let key = toStringBI c in
            \<lparr>counts = map_set (counts st) key
                        ((case map_of (counts st) key of None \<Rightarrow> 0 | Some v \<Rightarrow> v) + 1),
             example = (if \<not> map_has (example st) key
                        then map_set (example st) key combo else example st)\<rparr>)"

text \<open>
  The selection loop: \<^verbatim>\<open>bestConst = null, bestCount = -1\<close>, then
  \<^verbatim>\<open>if (ct > bestCount) { bestCount = ct; bestConst = kstr; }\<close> over the entries.
\<close>

fun best_loop :: "(string \<times> nat) list \<Rightarrow> string option \<times> int \<Rightarrow> string option \<times> int" where
  "best_loop [] acc = acc"
| "best_loop ((kstr, ct) # es) (bestConst, bestCount) =
     best_loop es (if int ct > bestCount then (Some kstr, int ct) else (bestConst, bestCount))"

definition pick_best :: "(string \<times> nat) list \<Rightarrow> string option" where
  "pick_best es = fst (best_loop es (None, - 1))"

text \<open>
  Voting mode of \<^verbatim>\<open>main\<close>: the loop over all subsets, the check
  \<^verbatim>\<open>counts.size === 0\<close> and the selection. The outer \<open>None\<close> stands for a generator that
  does not return.
\<close>

definition vote_all :: "point list \<Rightarrow> nat list list \<Rightarrow> vote_state" where
  "vote_all points combos = fold (vote_step points) combos vote_init"

definition voting_mode :: "point list \<Rightarrow> nat \<Rightarrow> (error + string option) option" where
  "voting_mode points k =
     (case kCombinations (length points) k of
        None \<Rightarrow> None
      | Some combos \<Rightarrow>
          let st = vote_all points combos
          in Some (if counts st = [] then Inl NoConsistentSubset
                   else Inr (pick_best (counts st))))"

text \<open>Direct mode of \<^verbatim>\<open>main\<close> (\<^verbatim>\<open>n === k || points.length === k\<close>): one interpolation.\<close>

definition direct_mode :: "point list \<Rightarrow> nat \<Rightarrow> error + int" where
  "direct_mode points k = constantViaLagrange (take k points)"

section \<open>The substitution solver: Gaussian elimination over fractions\<close>

text \<open>\<^verbatim>\<open>Frac.prototype.toString\<close>: the numerator alone for an integer, else \<^verbatim>\<open>n/d\<close>.\<close>

definition toStringFrac :: "Frac \<Rightarrow> string" where
  "toStringFrac a =
     (if isInt a then toStringBI (frac_n a)
      else toStringBI (frac_n a) @ ''/'' @ toStringBI (frac_d a))"

text \<open>
  \<^verbatim>\<open>powBI\<close>: square and multiply; \<^verbatim>\<open>e & 1n\<close> tests the lowest bit and \<^verbatim>\<open>e >>= 1n\<close> halves.
\<close>

function powBI_loop :: "int \<Rightarrow> int \<Rightarrow> nat \<Rightarrow> int" where
  "powBI_loop r b e =
     (if 0 < e then powBI_loop (if odd e then r * b else r) (b * b) (e div 2) else r)"
  by pat_completeness auto
termination
  by (relation "measure (\<lambda>(r, b, e). e)") auto

declare powBI_loop.simps [simp del]

definition powBI :: "int \<Rightarrow> nat \<Rightarrow> int" where
  "powBI base e = powBI_loop 1 base e"

fun map_err :: "('a \<Rightarrow> error + 'b) \<Rightarrow> 'a list \<Rightarrow> error + 'b list" where
  "map_err f [] = Inr []"
| "map_err f (a # as) = bind_err (f a) (\<lambda>b. bind_err (map_err f as) (\<lambda>bs. Inr (b # bs)))"

text \<open>
  \<^verbatim>\<open>vandermondeRow(xBI, m)\<close>: the powers \<open>x^m, ..., x^1\<close> and then \<open>1\<close>. The degree
  \<open>m = k - 1\<close> is \<open>-1\<close> when \<open>k = 0\<close>; the loop \<^verbatim>\<open>for (e = m; e >= 1; e--)\<close> is then empty.
\<close>

definition vandermondeRow :: "int \<Rightarrow> int \<Rightarrow> error + Frac list" where
  "vandermondeRow x m =
     bind_err (map_err (\<lambda>e. fromBI (powBI x (nat e))) (rev [1..m])) (\<lambda>row.
     bind_err (fromBI 1) (\<lambda>one. Inr (row @ [one])))"

text \<open>
  Reading the entry \<^verbatim>\<open>M[r][c]\<close>: outside the matrix the entry is \<^verbatim>\<open>undefined\<close>, and every
  use the solver makes of it (\<^verbatim>\<open>.n\<close>, \<^verbatim>\<open>.div\<close>, \<^verbatim>\<open>.sub\<close>, an argument of \<^verbatim>\<open>mul\<close>) raises a
  \<^verbatim>\<open>TypeError\<close>. Every write follows a read of the same entry.
\<close>

definition rd :: "Frac list list \<Rightarrow> nat \<Rightarrow> nat \<Rightarrow> error + Frac" where
  "rd M r c = (if r < length M \<and> c < length (M ! r) then Inr (M ! r ! c) else Inl TypeError)"

definition wr :: "Frac list list \<Rightarrow> nat \<Rightarrow> nat \<Rightarrow> Frac \<Rightarrow> Frac list list" where
  "wr M r c v = M[r := (M ! r)[c := v]]"

text \<open>The pivot search \<^verbatim>\<open>for (r = col; r < k; r++) if (M[r][col].n !== 0n) { piv = r; break; }\<close>.\<close>

fun find_pivot :: "Frac list list \<Rightarrow> nat \<Rightarrow> nat list \<Rightarrow> nat \<Rightarrow> error + nat" where
  "find_pivot M col [] piv = Inr piv"
| "find_pivot M col (r # rs) piv =
     bind_err (rd M r col) (\<lambda>f. if frac_n f \<noteq> 0 then Inr r else find_pivot M col rs piv)"

text \<open>\<^verbatim>\<open>for (c = col; c <= k; c++) M[col][c] = M[col][c].div(pivotVal)\<close>.\<close>

fun normalize_row :: "Frac list list \<Rightarrow> nat \<Rightarrow> Frac \<Rightarrow> nat list \<Rightarrow> error + Frac list list" where
  "normalize_row M col pivotVal [] = Inr M"
| "normalize_row M col pivotVal (c # cs) =
     bind_err (rd M col c) (\<lambda>f.
     bind_err (div_frac f pivotVal) (\<lambda>q.
     normalize_row (wr M col c q) col pivotVal cs))"

text \<open>\<^verbatim>\<open>for (c = col; c <= k; c++) M[r][c] = M[r][c].sub(factor.mul(M[col][c]))\<close>.\<close>

fun eliminate_row ::
  "Frac list list \<Rightarrow> nat \<Rightarrow> nat \<Rightarrow> Frac \<Rightarrow> nat list \<Rightarrow> error + Frac list list" where
  "eliminate_row M col r factor [] = Inr M"
| "eliminate_row M col r factor (c # cs) =
     bind_err (rd M r c) (\<lambda>a.
     bind_err (rd M col c) (\<lambda>p.
     bind_err (mul factor p) (\<lambda>t.
     bind_err (sub a t) (\<lambda>v.
     eliminate_row (wr M r c v) col r factor cs))))"

text \<open>The loop over the rows below the pivot row, with its \<^verbatim>\<open>continue\<close>.\<close>

fun eliminate_below :: "Frac list list \<Rightarrow> nat \<Rightarrow> nat \<Rightarrow> nat list \<Rightarrow> error + Frac list list" where
  "eliminate_below M k col [] = Inr M"
| "eliminate_below M k col (r # rs) =
     bind_err (rd M r col) (\<lambda>factor.
     if frac_n factor = 0 then eliminate_below M k col rs
     else bind_err (eliminate_row M col r factor [col..<Suc k]) (\<lambda>M'.
          eliminate_below M' k col rs))"

text \<open>Forward elimination, one column after the other.\<close>

fun forward_elim :: "Frac list list \<Rightarrow> nat \<Rightarrow> nat list \<Rightarrow> error + Frac list list" where
  "forward_elim M k [] = Inr M"
| "forward_elim M k (col # cols) =
     bind_err (find_pivot M col [col..<k] col) (\<lambda>piv.
     bind_err (rd M piv col) (\<lambda>pf.
     if frac_n pf = 0 then Inl SingularSystem
     else
       let M1 = (if piv \<noteq> col then M[col := M ! piv, piv := M ! col] else M)
       in bind_err (rd M1 col col) (\<lambda>pivotVal.
          bind_err (normalize_row M1 col pivotVal [col..<Suc k]) (\<lambda>M2.
          bind_err (eliminate_below M2 k col [Suc col..<k]) (\<lambda>M3.
          forward_elim M3 k cols)))))"

text \<open>Back substitution: the inner sum and the loop \<^verbatim>\<open>for (r = k - 1; r >= 0; r--)\<close>.\<close>

fun back_sum :: "Frac list list \<Rightarrow> Frac list \<Rightarrow> nat \<Rightarrow> nat list \<Rightarrow> Frac \<Rightarrow> error + Frac" where
  "back_sum M x r [] acc = Inr acc"
| "back_sum M x r (c # cs) acc =
     bind_err (rd M r c) (\<lambda>a.
     bind_err (mul a (x ! c)) (\<lambda>t.
     bind_err (add acc t) (\<lambda>acc'.
     back_sum M x r cs acc')))"

fun back_subst :: "Frac list list \<Rightarrow> nat \<Rightarrow> Frac list \<Rightarrow> nat list \<Rightarrow> error + Frac list" where
  "back_subst M k x [] = Inr x"
| "back_subst M k x (r # rs) =
     bind_err (fromBI 0) (\<lambda>acc0.
     bind_err (back_sum M x r [Suc r..<k] acc0) (\<lambda>acc.
     bind_err (rd M r k) (\<lambda>b.
     bind_err (sub b acc) (\<lambda>v.
     back_subst M k (x[r := v]) rs))))"

text \<open>
  \<^verbatim>\<open>solveFracSystem(A, b)\<close>. Its only caller passes as many right-hand sides as rows, so
  the augmented matrix is built by pairing them.
\<close>

definition solveFracSystem :: "Frac list list \<Rightarrow> Frac list \<Rightarrow> error + Frac list" where
  "solveFracSystem A b =
     (let k = length A;
          M = map (\<lambda>(row, bi). row @ [bi]) (zip A b)
      in bind_err (forward_elim M k [0..<k]) (\<lambda>M'.
         bind_err (map_err (\<lambda>i. fromBI 0) [0..<k]) (\<lambda>x0.
         back_subst M' k x0 (rev [0..<k]))))"

text \<open>
  \<^verbatim>\<open>solveForIndices(idxs)\<close> inside \<^verbatim>\<open>solveBySubstitution(points, k, ...)\<close>. An index outside
  \<^verbatim>\<open>points\<close> reads \<^verbatim>\<open>undefined\<close> coordinates, and the BigInt arithmetic on them raises a
  \<^verbatim>\<open>TypeError\<close>.
\<close>

definition solveForIndices :: "point list \<Rightarrow> nat \<Rightarrow> nat list \<Rightarrow> error + Frac list" where
  "solveForIndices points k idxs =
     (let m = int k - 1
      in if \<exists>ii \<in> set idxs. length points \<le> ii then Inl TypeError
         else bind_err (map_err (\<lambda>ii. vandermondeRow (px (points ! ii)) m) idxs) (\<lambda>rows.
              bind_err (map_err (\<lambda>ii. fromBI (py (points ! ii))) idxs) (\<lambda>b.
              solveFracSystem rows b)))"

text \<open>The value \<^verbatim>\<open>solveBySubstitution\<close> returns.\<close>

record solve_result =
  coeffs :: "Frac list"
  used_indices :: "nat list"
  votes_summary :: "(string \<times> nat) list option"

text \<open>\<^verbatim>\<open>points.findIndex(p => p.x === targetX)\<close>, with \<open>None\<close> for \<open>-1\<close>.\<close>

fun findIndex :: "point list \<Rightarrow> int \<Rightarrow> nat option" where
  "findIndex [] targetX = None"
| "findIndex (p # ps) targetX =
     (if px p = targetX then Some 0 else map_option Suc (findIndex ps targetX))"

definition consistentXValues :: "int list" where
  "consistentXValues = [1, 3, 4, 5, 6, 7, 9, 10]"

text \<open>
  The loop over \<^verbatim>\<open>consistentXValues\<close> of the direct path, with its
  \<^verbatim>\<open>if (idxs.length === k) break\<close> at the end of each turn.
\<close>

fun collect_idxs :: "point list \<Rightarrow> nat \<Rightarrow> int list \<Rightarrow> nat list \<Rightarrow> nat list" where
  "collect_idxs points k [] idxs = idxs"
| "collect_idxs points k (targetX # ts) idxs =
     (let idxs' = (case findIndex points targetX of None \<Rightarrow> idxs | Some i \<Rightarrow> idxs @ [i])
      in if length idxs' = k then idxs' else collect_idxs points k ts idxs')"

definition direct_path :: "point list \<Rightarrow> nat \<Rightarrow> error + solve_result" where
  "direct_path points k =
     (let idxs = collect_idxs points k consistentXValues []
      in if length idxs < k
         then (let fallbackIdxs = [0..<k]
               in bind_err (solveForIndices points k fallbackIdxs) (\<lambda>cs.
                  Inr \<lparr>coeffs = cs, used_indices = fallbackIdxs, votes_summary = None\<rparr>))
         else bind_err (solveForIndices points k idxs) (\<lambda>cs.
              Inr \<lparr>coeffs = cs, used_indices = idxs, votes_summary = None\<rparr>))"

text \<open>An entry \<^verbatim>\<open>{ count, example: { coeffs, idxs } }\<close> of the map \<^verbatim>\<open>votes\<close>.\<close>

record vote_entry =
  entry_count :: nat
  example_coeffs :: "Frac list"
  example_idxs :: "nat list"

text \<open>
  The body of the voting loop of \<^verbatim>\<open>solveBySubstitution\<close>. With no coefficient
  (\<open>k = 0\<close>) \<^verbatim>\<open>coeffs[coeffs.length - 1]\<close> is \<^verbatim>\<open>undefined\<close> and \<^verbatim>\<open>toString\<close> raises; the
  \<^verbatim>\<open>catch\<close> ignores every error.
\<close>

definition sub_vote_step ::
  "point list \<Rightarrow> nat \<Rightarrow> nat list \<Rightarrow> (string \<times> vote_entry) list \<Rightarrow> (string \<times> vote_entry) list" where
  "sub_vote_step points k idxs votes =
     (case solveForIndices points k idxs of
        Inl e \<Rightarrow> votes
      | Inr cs \<Rightarrow>
          if cs = [] then votes
          else
            let a0 = toStringFrac (last cs);
                entry = (case map_of votes a0 of
                           None \<Rightarrow> \<lparr>entry_count = 0, example_coeffs = cs, example_idxs = idxs\<rparr>
                         | Some e \<Rightarrow> e)
            in map_set votes a0 (entry\<lparr>entry_count := entry_count entry + 1\<rparr>))"

text \<open>
  The winner loop: \<^verbatim>\<open>if (!best || val.count > best.count) { best = val; bestKey = key; }\<close>.
\<close>

fun best_entry ::
  "(string \<times> vote_entry) list \<Rightarrow> (string \<times> vote_entry) option \<Rightarrow> (string \<times> vote_entry) option" where
  "best_entry [] best = best"
| "best_entry ((key, v) # es) best =
     best_entry es
       (case best of
          None \<Rightarrow> Some (key, v)
        | Some (bestKey, b) \<Rightarrow>
            if entry_count v > entry_count b then Some (key, v) else Some (bestKey, b))"

definition sub_vote_all :: "point list \<Rightarrow> nat \<Rightarrow> nat list list \<Rightarrow> (string \<times> vote_entry) list" where
  "sub_vote_all points k combos = fold (sub_vote_step points k) combos []"

definition solve_vote :: "point list \<Rightarrow> nat \<Rightarrow> (error + solve_result) option" where
  "solve_vote points k =
     (case kCombinations (length points) k of
        None \<Rightarrow> None
      | Some combos \<Rightarrow>
          let votes = sub_vote_all points k combos
          in Some (case best_entry votes None of
                     None \<Rightarrow> Inl NoConsistentSubset
                   | Some (bestKey, best) \<Rightarrow>
                       Inr \<lparr>coeffs = example_coeffs best, used_indices = example_idxs best,
                            votes_summary = Some (map (\<lambda>(key, v). (key, entry_count v)) votes)\<rparr>))"

definition solveBySubstitution :: "point list \<Rightarrow> nat \<Rightarrow> bool \<Rightarrow> (error + solve_result) option" where
  "solveBySubstitution points k tryAllSubsets =
     (if \<not> tryAllSubsets then Some (direct_path points k) else solve_vote points k)"

text \<open>
  What the command line of the substitution solver prints: the numerator \<^verbatim>\<open>a0.n\<close> of the
  last coefficient.
\<close>

definition substitution_main :: "point list \<Rightarrow> nat \<Rightarrow> bool \<Rightarrow> (error + int) option" where
  "substitution_main points k tryAll =
     map_option (\<lambda>res. bind_err res (\<lambda>r.
        if coeffs r = [] then Inl TypeError else Inr (frac_n (last (coeffs r)))))
       (solveBySubstitution points k tryAll)"

section \<open>The command line of Problem.js\<close>

text \<open>
  Strings are lists of characters; the arguments are taken to be ASCII. \<open>is_space\<close> holds the
  ASCII characters that \<^verbatim>\<open>trim\<close> removes, \<open>split_on\<close> is \<^verbatim>\<open>split(",")\<close>, \<open>matches_int\<close> is the
  test of the regular expression \<^verbatim>\<open>/^-?\d+$/\<close> and \<open>parseBigInt\<close> is \<^verbatim>\<open>BigInt(s)\<close> on a
  string that passed the test.
\<close>

definition is_space :: "char \<Rightarrow> bool" where
  "is_space c \<longleftrightarrow> of_char c \<in> {9, 10, 11, 12, 13, 32 :: nat}"

definition trim :: "string \<Rightarrow> string" where
  "trim s = rev (dropWhile is_space (rev (dropWhile is_space s)))"

fun split_on :: "char \<Rightarrow> string \<Rightarrow> string list" where
  "split_on sep [] = [[]]"
| "split_on sep (c # cs) =
     (if c = sep then [] # split_on sep cs
      else case split_on sep cs of
             [] \<Rightarrow> [[c]]
           | p # ps \<Rightarrow> (c # p) # ps)"

definition is_digit :: "char \<Rightarrow> bool" where
  "is_digit c \<longleftrightarrow> 48 \<le> (of_char c :: nat) \<and> (of_char c :: nat) \<le> 57"

definition matches_int :: "string \<Rightarrow> bool" where
  "matches_int s =
     (let ds = (case s of [] \<Rightarrow> [] | c # cs \<Rightarrow> if c = CHR ''-'' then cs else s)
      in ds \<noteq> [] \<and> list_all is_digit ds)"

definition parse_nat :: "string \<Rightarrow> nat" where
  "parse_nat ds = foldl (\<lambda>a c. 10 * a + (of_char c - 48)) 0 ds"

definition parseBigInt :: "string \<Rightarrow> int" where
  "parseBigInt s =
     (case s of
        [] \<Rightarrow> 0
      | c # cs \<Rightarrow> if c = CHR ''-'' then - int (parse_nat cs) else int (parse_nat s))"

text \<open>
  The first part of \<^verbatim>\<open>parsePickArg\<close>, up to the list \<^verbatim>\<open>keys\<close>; \<open>None\<close> stands for
  \<^verbatim>\<open>null\<close>.
\<close>

definition pick_keys :: "string list \<Rightarrow> error + int list option" where
  "pick_keys argv =
     (case List.find (\<lambda>a. take 7 a = ''--pick='') argv of
        None \<Rightarrow> Inr None
      | Some pickArg \<Rightarrow>
          let raw = trim (drop 7 pickArg)
          in if raw = [] then Inr None
             else
               let parts = filter (\<lambda>s. s \<noteq> []) (map trim (split_on CHR '','' raw))
               in if parts = [] then Inr None
                  else bind_err
                         (map_err (\<lambda>s. if \<not> matches_int s then Inl PickNonInteger
                                        else Inr (parseBigInt s)) parts)
                         (\<lambda>keys. Inr (Some keys)))"

text \<open>
  The dedupe loop: the set \<^verbatim>\<open>seen\<close> of printed keys and the list \<^verbatim>\<open>unique\<close>.
\<close>

definition dedupe_step :: "int \<Rightarrow> string set \<times> int list \<Rightarrow> string set \<times> int list" where
  "dedupe_step v su =
     (let key = toStringBI v
      in if key \<in> fst su then su else (insert key (fst su), snd su @ [v]))"

definition dedupe :: "int list \<Rightarrow> int list" where
  "dedupe keys = snd (fold dedupe_step keys ({}, []))"

definition parsePickArg :: "string list \<Rightarrow> error + int list option" where
  "parsePickArg argv = bind_err (pick_keys argv) (\<lambda>r. Inr (map_option dedupe r))"

text \<open>
  The map \<^verbatim>\<open>new Map(points.map((p, i) => [p.x.toString(), i]))\<close> and the subset picked by
  the x-keys \<^verbatim>\<open>chosenXs\<close>.
\<close>

definition index_map :: "point list \<Rightarrow> (string \<times> nat) list" where
  "index_map points =
     fold (\<lambda>(p, i) m. map_set m (toStringBI (px p)) i) (zip points [0..<length points]) []"

definition pick_subset :: "point list \<Rightarrow> nat \<Rightarrow> int list \<Rightarrow> error + point list" where
  "pick_subset points k chosenXs =
     (if length chosenXs \<noteq> k then Inl WrongSubsetSize
      else map_err (\<lambda>x. case map_of (index_map points) (toStringBI x) of
                           None \<Rightarrow> Inl UnknownKey
                         | Some idx \<Rightarrow> Inr (points ! idx)) chosenXs)"

text \<open>
  \<^verbatim>\<open>main\<close> on a loaded test case \<open>(k, n, points)\<close>: the constant it prints, or the error.
  \<^verbatim>\<open>loadTestCase\<close> has checked that there are at least \<open>k\<close> points.
\<close>

definition main_problem :: "string list \<Rightarrow> nat \<Rightarrow> nat \<Rightarrow> point list \<Rightarrow> (error + string) option" where
  "main_problem argv k n points =
     (case parsePickArg argv of
        Inl e \<Rightarrow> Some (Inl e)
      | Inr (Some chosenXs) \<Rightarrow>
          Some (bind_err (pick_subset points k chosenXs) (\<lambda>sub_pts.
                bind_err (constantViaLagrange sub_pts) (\<lambda>c. Inr (toStringBI c))))
      | Inr None \<Rightarrow>
          if n = k \<or> length points = k
          then Some (bind_err (direct_mode points k) (\<lambda>c. Inr (toStringBI c)))
          else map_option (\<lambda>r. bind_err r (\<lambda>b. Inr (case b of None \<Rightarrow> ''null'' | Some c \<Rightarrow> c)))
                 (voting_mode points k))"

section \<open>Facts about the BigInt helpers and fractions\<close>

lemma absBI_abs: "absBI a = \<bar>a\<bar>"
  by (simp add: absBI_def)

lemma bi_rem_nonneg: "0 \<le> a \<Longrightarrow> 0 \<le> b \<Longrightarrow> bi_rem a b = a mod b"
  by (cases "a = 0") (simp_all add: bi_rem_def)

lemma gcdBI_loop_gcd: "0 \<le> a \<Longrightarrow> 0 \<le> b \<Longrightarrow> gcdBI_loop a b = gcd a b"
proof (induction a b rule: gcdBI_loop.induct)
  case (1 a b)
  show ?case
  proof (cases "b = 0")
    case True
    with 1 show ?thesis by (simp add: gcdBI_loop.simps)
  next
    case False
    have r: "bi_rem a b = a mod b" using 1 by (simp add: bi_rem_nonneg)
    have "0 \<le> a mod b" using False 1 by simp
    with 1 False r have "gcdBI_loop b (bi_rem a b) = gcd b (a mod b)" by simp
    also have "\<dots> = gcd a b" by (metis gcd.commute gcd_red_int)
    finally show ?thesis using False by (simp add: gcdBI_loop.simps[of a b])
  qed
qed

lemma gcdBI_gcd: "gcdBI a b = gcd a b"
  by (simp add: gcdBI_def absBI_abs gcdBI_loop_gcd)

lemma bi_div_exact: "g dvd a \<Longrightarrow> 0 < g \<Longrightarrow> bi_div a g = a div g"
proof -
  assume g: "g dvd a" "0 < g"
  then obtain c where c: "a = g * c" by (auto simp: dvd_def)
  have "sgn (g * c) * (\<bar>g * c\<bar> div \<bar>g\<bar>) = c"
    using g(2) by (simp add: abs_mult sgn_mult mult_sgn_abs)
  with g c show ?thesis by (simp add: bi_div_def)
qed

lemma mkFrac_zero_den: "mkFrac n 0 = Inl DivisionByZero"
  by (simp add: mkFrac_def)

lemma mkFrac_pos:
  assumes "0 < d"
  shows "mkFrac n d = Inr \<lparr>frac_n = n div gcd n d, frac_d = d div gcd n d\<rparr>"
proof -
  have g: "0 < gcd n d" using assms by (simp add: gcd_pos_int)
  have "bi_div n (gcd n d) = n div gcd n d" "bi_div d (gcd n d) = d div gcd n d"
    using g by (simp_all add: bi_div_exact)
  with assms g show ?thesis
    by (simp add: mkFrac_def Let_def gcdBI_gcd absBI_abs)
qed

lemma mkFrac_neg:
  assumes "d < 0"
  shows "mkFrac n d = mkFrac (- n) (- d)"
  using assms by (simp add: mkFrac_def Let_def)

lemma mkFrac_ok:
  assumes "d \<noteq> 0"
  obtains r where "mkFrac n d = Inr r" "frac_inv r" "val r = of_int n / of_int d"
proof -
  have pos: "\<exists>r. mkFrac m e = Inr r \<and> frac_inv r \<and> val r = of_int m / of_int e"
    if e: "0 < e" for m e :: int
  proof -
    let ?g = "gcd m e"
    have g: "0 < ?g" using e by (simp add: gcd_pos_int)
    have dn: "?g dvd m" and dd: "?g dvd e" by simp_all
    have cop: "gcd (m div ?g) (e div ?g) = 1"
      using g by (simp add: div_gcd_coprime)
    have dpos: "0 < e div ?g"
      using e g dd by (metis dvd_div_eq_0_iff less_le pos_imp_zdiv_nonneg_iff zero_less_imp_eq_int not_less)
    have "real_of_int (m div ?g) / real_of_int (e div ?g) = of_int m / of_int e"
      using g dn dd by (simp add: real_of_int_div)
    with cop dpos mkFrac_pos[OF e, of m] show ?thesis
      by (simp add: frac_inv_def val_def)
  qed
  show thesis
  proof (cases "0 < d")
    case True
    with pos[of d n] that show thesis by blast
  next
    case False
    with assms have neg: "d < 0" by simp
    then have "0 < - d" by simp
    from pos[OF this, of "- n"] mkFrac_neg[OF neg, of n] that show thesis
      by auto
  qed
qed

lemma frac_inv_den_nz: "frac_inv a \<Longrightarrow> frac_d a \<noteq> 0"
  by (simp add: frac_inv_def)

lemma add_ok:
  assumes "frac_d a \<noteq> 0" "frac_d b \<noteq> 0"
  obtains r where "add a b = Inr r" "frac_inv r" "val r = val a + val b"
proof -
  from assms have nz: "frac_d a * frac_d b \<noteq> 0" by simp
  obtain r where r: "mkFrac (frac_n a * frac_d b + frac_n b * frac_d a) (frac_d a * frac_d b) = Inr r"
      "frac_inv r"
      "val r = of_int (frac_n a * frac_d b + frac_n b * frac_d a) / of_int (frac_d a * frac_d b)"
    using mkFrac_ok[OF nz] by blast
  have "val r = val a + val b"
    using assms r(3) by (simp add: val_def field_simps)
  with r that show thesis by (simp add: add_def)
qed

lemma sub_ok:
  assumes "frac_d a \<noteq> 0" "frac_d b \<noteq> 0"
  obtains r where "sub a b = Inr r" "frac_inv r" "val r = val a - val b"
proof -
  from assms have nz: "frac_d a * frac_d b \<noteq> 0" by simp
  obtain r where r: "mkFrac (frac_n a * frac_d b - frac_n b * frac_d a) (frac_d a * frac_d b) = Inr r"
      "frac_inv r"
      "val r = of_int (frac_n a * frac_d b - frac_n b * frac_d a) / of_int (frac_d a * frac_d b)"
    using mkFrac_ok[OF nz] by blast
  have "val r = val a - val b"
    using assms r(3) by (simp add: val_def field_simps)
  with r that show thesis by (simp add: sub_def)
qed

lemma mul_ok:
  assumes "frac_d a \<noteq> 0" "frac_d b \<noteq> 0"
  obtains r where "mul a b = Inr r" "frac_inv r" "val r = val a * val b"
proof -
  from assms have nz: "frac_d a * frac_d b \<noteq> 0" by simp
  obtain r where r: "mkFrac (frac_n a * frac_n b) (frac_d a * frac_d b) = Inr r"
      "frac_inv r"
      "val r = of_int (frac_n a * frac_n b) / of_int (frac_d a * frac_d b)"
    using mkFrac_ok[OF nz] by blast
  have "val r = val a * val b"
    using r(3) by (simp add: val_def)
  with r that show thesis by (simp add: mul_def)
qed

lemma div_frac_zero: "frac_n b = 0 \<Longrightarrow> div_frac a b = Inl DivisionByZero"
  by (simp add: div_frac_def)

lemma div_frac_ok:
  assumes "frac_d a \<noteq> 0" "frac_d b \<noteq> 0" "frac_n b \<noteq> 0"
  obtains r where "div_frac a b = Inr r" "frac_inv r" "val r = val a / val b"
proof -
  from assms have nz: "frac_d a * frac_n b \<noteq> 0" by simp
  obtain r where r: "mkFrac (frac_n a * frac_d b) (frac_d a * frac_n b) = Inr r"
      "frac_inv r"
      "val r = of_int (frac_n a * frac_d b) / of_int (frac_d a * frac_n b)"
    using mkFrac_ok[OF nz] by blast
  have "val r = val a / val b"
    using r(3) by (simp add: val_def)
  with r assms that show thesis by (simp add: div_frac_def)
qed

lemma fromBI_eq: "fromBI x = Inr \<lparr>frac_n = x, frac_d = 1\<rparr>"
  using mkFrac_pos[of 1 x] by (simp add: fromBI_def)

lemma val_int [simp]: "val \<lparr>frac_n = x, frac_d = 1\<rparr> = of_int x"
  by (simp add: val_def)

lemma frac_inv_int [simp]: "frac_inv \<lparr>frac_n = x, frac_d = 1\<rparr>"
  by (simp add: frac_inv_def)

text \<open>A normalized fraction is determined by the number it stands for.\<close>

lemma frac_inv_val_inject:
  assumes "frac_inv a" "frac_inv b" "val a = val b"
  shows "a = b"
proof -
  from assms have pa: "0 < frac_d a" and pb: "0 < frac_d b"
    and ca: "coprime (frac_n a) (frac_d a)" and cb: "coprime (frac_n b) (frac_d b)"
    by (simp_all add: frac_inv_def coprime_iff_gcd_eq_1)
  from assms(3) pa pb have "real_of_int (frac_n a * frac_d b) = real_of_int (frac_n b * frac_d a)"
    by (simp add: val_def field_simps)
  then have eq: "frac_n a * frac_d b = frac_n b * frac_d a"
    using of_int_eq_iff by blast
  have "frac_d a dvd frac_n a * frac_d b" using eq by simp
  then have d1: "frac_d a dvd frac_d b"
    using ca by (simp add: coprime_commute coprime_dvd_mult_right_iff)
  have "frac_d b dvd frac_n b * frac_d a" using eq by (metis dvd_triv_right)
  then have d2: "frac_d b dvd frac_d a"
    using cb by (simp add: coprime_commute coprime_dvd_mult_right_iff)
  from d1 d2 pa pb have dd: "frac_d a = frac_d b"
    by (simp add: zdvd_antisym_nonneg)
  with eq pa have "frac_n a = frac_n b" by simp
  with dd show ?thesis by simp
qed

lemma frac_inv_isInt:
  assumes "frac_inv a"
  shows "isInt a \<longleftrightarrow> val a \<in> \<int>"
proof
  assume "isInt a"
  then show "val a \<in> \<int>" by (simp add: isInt_def val_def)
next
  assume "val a \<in> \<int>"
  then obtain z :: int where z: "val a = of_int z" by (auto elim: Ints_cases)
  have "a = \<lparr>frac_n = z, frac_d = 1\<rparr>"
    by (rule frac_inv_val_inject) (use assms z in simp_all)
  then show "isInt a" by (simp add: isInt_def)
qed

lemma frac_inv_isInt_val: "frac_inv a \<Longrightarrow> isInt a \<Longrightarrow> val a = of_int (frac_n a)"
  by (simp add: isInt_def val_def)

text \<open>
  A polynomial with integer coefficients \<open>cs\<close>, constant term first, evaluated at \<open>x\<close>;
  its degree is below \<open>length cs\<close>.
\<close>

definition poly_eval :: "int list \<Rightarrow> int \<Rightarrow> int" where
  "poly_eval cs x = (\<Sum>m<length cs. cs ! m * x ^ m)"

section \<open>What the Lagrange computation returns\<close>

text \<open>
  The numerator and denominator products of the inner loop, the term of sample \<open>i\<close> and
  the value of the whole sum, as numbers.
\<close>

definition lag_num :: "int list \<Rightarrow> nat \<Rightarrow> int" where
  "lag_num xs i = (\<Prod>j\<in>{..<length xs} - {i}. - (xs ! j))"

definition lag_den :: "int list \<Rightarrow> nat \<Rightarrow> int" where
  "lag_den xs i = (\<Prod>j\<in>{..<length xs} - {i}. xs ! i - xs ! j)"

definition lag_term :: "int list \<Rightarrow> int list \<Rightarrow> nat \<Rightarrow> real" where
  "lag_term xs ys i = of_int (ys ! i) * of_int (lag_num xs i) / of_int (lag_den xs i)"

definition lagrange_value :: "point list \<Rightarrow> real" where
  "lagrange_value ps = (\<Sum>i<length ps. lag_term (map px ps) (map py ps) i)"

lemma lessThan_Suc_Diff: "{..<Suc m} - {i} = (if m = i then {..<m} - {i} else insert m ({..<m} - {i}))"
  by auto

lemma fold_num_den:
  "fold (\<lambda>j (num, den). if j = i then (num, den) else (num * g j, den * h j)) [0..<m] (a, b)
   = (a * (\<Prod>j\<in>{..<m} - {i}. g j), b * (\<Prod>j\<in>{..<m} - {i}. h j :: int))"
  by (induction m) (simp_all add: lessThan_Suc_Diff mult_ac)

lemma lagrange_num_den_eq: "lagrange_num_den xs i = (lag_num xs i, lag_den xs i)"
  unfolding lagrange_num_den_def lag_num_def lag_den_def
  using fold_num_den[of i "\<lambda>j. - (xs ! j)" "\<lambda>j. xs ! i - xs ! j" "length xs" 1 1]
  by simp

lemma lag_den_zero_iff:
  "lag_den xs i = 0 \<longleftrightarrow> (\<exists>j<length xs. j \<noteq> i \<and> xs ! j = xs ! i)"
proof -
  have "lag_den xs i = 0 \<longleftrightarrow> (\<exists>j\<in>{..<length xs} - {i}. xs ! i - xs ! j = 0)"
    unfolding lag_den_def by (rule prod_zero_iff) simp
  also have "\<dots> \<longleftrightarrow> (\<exists>j<length xs. j \<noteq> i \<and> xs ! j = xs ! i)"
    by (simp add: Bex_def) metis
  finally show ?thesis .
qed

lemma distinct_lag_den: "distinct xs \<longleftrightarrow> (\<forall>i<length xs. lag_den xs i \<noteq> 0)"
  by (auto simp: lag_den_zero_iff distinct_conv_nth) 

lemma lagrange_loop_ok:
  assumes "frac_inv acc" "\<forall>i\<in>set is. lag_den xs i \<noteq> 0"
  shows "\<exists>r. lagrange_loop xs ys is acc = Inr r \<and> frac_inv r \<and>
             val r = val acc + (\<Sum>i\<leftarrow>is. lag_term xs ys i)"
  using assms
proof (induction "is" arbitrary: acc)
  case Nil
  then show ?case by simp
next
  case (Cons i "is")
  from Cons.prems have dn: "lag_den xs i \<noteq> 0" by simp
  obtain li0 where li0: "mkFrac (lag_num xs i) (lag_den xs i) = Inr li0" "frac_inv li0"
      "val li0 = of_int (lag_num xs i) / of_int (lag_den xs i)"
    using mkFrac_ok[OF dn] by blast
  let ?yi = "\<lparr>frac_n = ys ! i, frac_d = 1\<rparr>"
  obtain t where t: "mul li0 ?yi = Inr t" "frac_inv t" "val t = val li0 * val ?yi"
    using mul_ok[of li0 ?yi] li0(2) by (auto dest: frac_inv_den_nz)
  obtain acc' where acc': "add acc t = Inr acc'" "frac_inv acc'" "val acc' = val acc + val t"
    using add_ok[of acc t] t(2) Cons.prems(1) by (auto dest: frac_inv_den_nz)
  from Cons.IH[OF acc'(2)] Cons.prems(2)
  obtain r where r: "lagrange_loop xs ys is acc' = Inr r" "frac_inv r"
      "val r = val acc' + (\<Sum>i\<leftarrow>is. lag_term xs ys i)"
    by auto
  have "lagrange_loop xs ys (i # is) acc = Inr r"
    using li0(1) t(1) acc'(1) r(1)
    by (simp add: lagrange_num_den_eq bind_err_def fromBI_eq)
  moreover have "val r = val acc + (\<Sum>i\<leftarrow>i # is. lag_term xs ys i)"
    using r(3) acc'(3) t(3) li0(3) by (simp add: lag_term_def)
  ultimately show ?case using r(2) by blast
qed

lemma lagrange_loop_fail:
  assumes "frac_inv acc" "\<exists>i\<in>set is. lag_den xs i = 0"
  shows "lagrange_loop xs ys is acc = Inl DivisionByZero"
  using assms
proof (induction "is" arbitrary: acc)
  case Nil
  then show ?case by simp
next
  case (Cons i "is")
  show ?case
  proof (cases "lag_den xs i = 0")
    case True
    then show ?thesis
      by (simp add: lagrange_num_den_eq bind_err_def mkFrac_zero_den)
  next
    case dn: False
    with Cons.prems have ex: "\<exists>i\<in>set is. lag_den xs i = 0" by auto
    obtain li0 where li0: "mkFrac (lag_num xs i) (lag_den xs i) = Inr li0" "frac_inv li0"
      using mkFrac_ok[OF dn] by blast
    let ?yi = "\<lparr>frac_n = ys ! i, frac_d = 1\<rparr>"
    obtain t where t: "mul li0 ?yi = Inr t" "frac_inv t"
      using mul_ok[of li0 ?yi] li0(2) by (auto dest: frac_inv_den_nz)
    obtain acc' where acc': "add acc t = Inr acc'" "frac_inv acc'"
      using add_ok[of acc t] t(2) Cons.prems(1) by (auto dest: frac_inv_den_nz)
    from Cons.IH[OF acc'(2) ex] li0(1) t(1) acc'(1) show ?thesis
      by (simp add: lagrange_num_den_eq bind_err_def fromBI_eq)
  qed
qed

lemma constantViaLagrange_char:
  "constantViaLagrange ps =
     (if \<not> distinct (map px ps) then Inl DivisionByZero
      else if lagrange_value ps \<in> \<int> then Inr \<lfloor>lagrange_value ps\<rfloor>
      else Inl NonIntegerResult)"
proof (cases "distinct (map px ps)")
  case False
  then have "\<exists>i\<in>set [0..<length ps]. lag_den (map px ps) i = 0"
    by (auto simp: distinct_lag_den)
  from lagrange_loop_fail[OF _ this, of "\<lparr>frac_n = 0, frac_d = 1\<rparr>" "map py ps"] False
  show ?thesis
    by (simp add: constantViaLagrange_def Let_def fromBI_eq bind_err_def)
next
  case True
  then have "\<forall>i\<in>set [0..<length ps]. lag_den (map px ps) i \<noteq> 0"
    by (auto simp: distinct_lag_den)
  from lagrange_loop_ok[OF _ this, of "\<lparr>frac_n = 0, frac_d = 1\<rparr>" "map py ps"]
  obtain r where r: "lagrange_loop (map px ps) (map py ps) [0..<length ps] \<lparr>frac_n = 0, frac_d = 1\<rparr> = Inr r"
     "frac_inv r" "val r = (\<Sum>i\<leftarrow>[0..<length ps]. lag_term (map px ps) (map py ps) i)"
    by auto
  have v: "val r = lagrange_value ps"
    using r(3) by (simp add: lagrange_value_def interv_sum_list_conv_sum_set_nat atLeast0LessThan)
  show ?thesis
  proof (cases "isInt r")
    case True
    then have "lagrange_value ps = of_int (frac_n r)"
      using frac_inv_isInt_val[OF r(2)] v by simp
    then show ?thesis using r(1) True \<open>distinct (map px ps)\<close>
      by (simp add: constantViaLagrange_def Let_def fromBI_eq bind_err_def)
  next
    case False
    then have "lagrange_value ps \<notin> \<int>"
      using frac_inv_isInt[OF r(2)] v by simp
    then show ?thesis using r(1) False \<open>distinct (map px ps)\<close>
      by (simp add: constantViaLagrange_def Let_def fromBI_eq bind_err_def)
  qed
qed

section \<open>Polynomial functions and the interpolation formula\<close>

text \<open>\<open>is_poly n f\<close>: the function \<open>f\<close> is a polynomial of degree at most \<open>n\<close>.\<close>

definition is_poly :: "nat \<Rightarrow> (real \<Rightarrow> real) \<Rightarrow> bool" where
  "is_poly n f \<longleftrightarrow> (\<exists>c. \<forall>t. f t = (\<Sum>m\<le>n. c m * t ^ m))"

lemma is_poly_const: "is_poly n (\<lambda>t. a)"
  unfolding is_poly_def
proof (intro exI allI)
  fix t :: real
  have "(\<Sum>m\<le>n. (if m = 0 then a else 0) * t ^ m) = (\<Sum>m\<in>{0}. (if m = 0 then a else 0) * t ^ m)"
    by (rule sum.mono_neutral_right) auto
  then show "a = (\<Sum>m\<le>n. (if m = 0 then a else 0) * t ^ m)" by simp
qed

lemma is_poly_add: "is_poly n f \<Longrightarrow> is_poly n g \<Longrightarrow> is_poly n (\<lambda>t. f t + g t)"
  unfolding is_poly_def
proof -
  assume "\<exists>c. \<forall>t. f t = (\<Sum>m\<le>n. c m * t ^ m)" "\<exists>c. \<forall>t. g t = (\<Sum>m\<le>n. c m * t ^ m)"
  then obtain c d where "\<forall>t. f t = (\<Sum>m\<le>n. c m * t ^ m)" "\<forall>t. g t = (\<Sum>m\<le>n. d m * t ^ m)"
    by blast
  then have "\<forall>t. f t + g t = (\<Sum>m\<le>n. (c m + d m) * t ^ m)"
    by (simp add: sum.distrib distrib_right)
  then show "\<exists>c. \<forall>t. f t + g t = (\<Sum>m\<le>n. c m * t ^ m)"
    by (intro exI[of _ "\<lambda>m. c m + d m"])
qed

lemma is_poly_scale: "is_poly n f \<Longrightarrow> is_poly n (\<lambda>t. a * f t)"
  unfolding is_poly_def
proof -
  assume "\<exists>c. \<forall>t. f t = (\<Sum>m\<le>n. c m * t ^ m)"
  then obtain c where "\<forall>t. f t = (\<Sum>m\<le>n. c m * t ^ m)" by blast
  then have "\<forall>t. a * f t = (\<Sum>m\<le>n. (a * c m) * t ^ m)"
    by (simp add: sum_distrib_left mult.assoc)
  then show "\<exists>c. \<forall>t. a * f t = (\<Sum>m\<le>n. c m * t ^ m)"
    by (intro exI[of _ "\<lambda>m. a * c m"])
qed

lemma is_poly_shift: "is_poly n f \<Longrightarrow> is_poly (Suc n) (\<lambda>t. t * f t)"
  unfolding is_poly_def
proof -
  assume "\<exists>c. \<forall>t. f t = (\<Sum>m\<le>n. c m * t ^ m)"
  then obtain c where c: "\<forall>t. f t = (\<Sum>m\<le>n. c m * t ^ m)" by blast
  have "t * f t = (\<Sum>m\<le>Suc n. (case m of 0 \<Rightarrow> 0 | Suc m' \<Rightarrow> c m') * t ^ m)" for t
    unfolding sum.atMost_Suc_shift using c
    by (simp add: sum_distrib_left mult_ac)
  then show "\<exists>c. \<forall>t. t * f t = (\<Sum>m\<le>Suc n. c m * t ^ m)"
    by (intro exI[of _ "\<lambda>m. case m of 0 \<Rightarrow> 0 | Suc m' \<Rightarrow> c m'"]) simp
qed

lemma is_poly_Suc: "is_poly n f \<Longrightarrow> is_poly (Suc n) f"
  unfolding is_poly_def
proof -
  assume "\<exists>c. \<forall>t. f t = (\<Sum>m\<le>n. c m * t ^ m)"
  then obtain c where c: "\<forall>t. f t = (\<Sum>m\<le>n. c m * t ^ m)" by blast
  have "f t = (\<Sum>m\<le>Suc n. (if m \<le> n then c m else 0) * t ^ m)" for t
    using c by simp
  then show "\<exists>c. \<forall>t. f t = (\<Sum>m\<le>Suc n. c m * t ^ m)"
    by (intro exI[of _ "\<lambda>m. if m \<le> n then c m else 0"]) simp
qed

lemma is_poly_mono: "is_poly n f \<Longrightarrow> n \<le> n' \<Longrightarrow> is_poly n' f"
  by (induction n' ) (auto simp: le_Suc_eq is_poly_Suc)

lemma is_poly_linear_mult:
  assumes "is_poly n f"
  shows "is_poly (Suc n) (\<lambda>t. (t - a) * f t)"
proof -
  have "is_poly (Suc n) (\<lambda>t. t * f t + (- a) * f t)"
    by (intro is_poly_add is_poly_shift is_poly_scale is_poly_Suc assms)
  then show ?thesis by (simp add: algebra_simps)
qed

lemma is_poly_prod_linear:
  assumes "finite S"
  shows "is_poly (card S) (\<lambda>t. \<Prod>j\<in>S. (t - x j))"
  using assms
proof (induction S)
  case empty
  then show ?case by (simp add: is_poly_const)
next
  case (insert s S)
  then show ?case
    using is_poly_linear_mult[of "card S" "\<lambda>t. \<Prod>j\<in>S. (t - x j)" "x s"]
    by simp
qed

lemma is_poly_sum:
  assumes "finite I" "\<And>i. i \<in> I \<Longrightarrow> is_poly n (f i)"
  shows "is_poly n (\<lambda>t. \<Sum>i\<in>I. f i t)"
  using assms
proof (induction I)
  case empty
  then show ?case by (simp add: is_poly_const)
next
  case (insert s S)
  then show ?case by (simp add: is_poly_add)
qed

lemma is_poly_zero_of_roots:
  assumes "is_poly n f" "finite R" "card R = Suc n" "\<forall>r\<in>R. f r = 0"
  shows "f t = 0"
proof -
  from assms(1) obtain c where c: "\<forall>t. f t = (\<Sum>m\<le>n. c m * t ^ m)"
    unfolding is_poly_def by blast
  have "\<forall>m\<le>n. c m = 0"
  proof (rule ccontr)
    assume "\<not> (\<forall>m\<le>n. c m = 0)"
    then obtain m where m: "c m \<noteq> 0" "m \<le> n" by blast
    have fin: "finite {z. (\<Sum>i\<le>n. c i * z ^ i) = 0}"
      and card: "card {z. (\<Sum>i\<le>n. c i * z ^ i) = 0} \<le> n"
      using polyfun_roots_finite[of c m n] polyfun_roots_card[of c m n] m by auto
    have "R \<subseteq> {z. (\<Sum>i\<le>n. c i * z ^ i) = 0}" using assms(4) c by auto
    then have "card R \<le> card {z. (\<Sum>i\<le>n. c i * z ^ i) = 0}"
      using fin by (simp add: card_mono)
    with card assms(3) show False by simp
  qed
  with c show ?thesis by simp
qed

text \<open>The Lagrange interpolation formula.\<close>

lemma lagrange_basis_node:
  fixes x :: "nat \<Rightarrow> real"
  assumes "inj_on x {..n}" "i \<le> n" "l \<le> n"
  shows "(\<Prod>j\<in>{..n} - {i}. (x l - x j) / (x i - x j)) = (if l = i then 1 else (0::real))"
proof (cases "l = i")
  case True
  have "(\<Prod>j\<in>{..n} - {i}. (x i - x j) / (x i - x j)) = (\<Prod>j\<in>{..n} - {i}. 1)"
  proof (rule prod.cong)
    fix j assume "j \<in> {..n} - {i}"
    then have "x i \<noteq> x j" using assms(1,2) by (auto simp: inj_on_def)
    then show "(x i - x j) / (x i - x j) = 1" by simp
  qed simp
  with True show ?thesis by simp
next
  case False
  then have "l \<in> {..n} - {i}" using assms(3) by simp
  moreover have "(x l - x l) / (x i - x l) = 0" by simp
  ultimately have "(\<Prod>j\<in>{..n} - {i}. (x l - x j) / (x i - x j)) = 0"
    by (intro prod_zero) auto
  with False show ?thesis by simp
qed

lemma lagrange_interpolation:
  fixes x y :: "nat \<Rightarrow> real"
  assumes inj: "inj_on x {..n}" and f: "is_poly n f" and fy: "\<forall>i\<le>n. f (x i) = y i"
  shows "(\<Sum>i\<le>n. y i * (\<Prod>j\<in>{..n} - {i}. (t - x j) / (x i - x j))) = f t"
proof -
  define L where "L t = (\<Sum>i\<in>{..n}. y i * (\<Prod>j\<in>{..n} - {i}. (t - x j) / (x i - x j)))" for t
  have basis: "is_poly n (\<lambda>t. y i * (\<Prod>j\<in>{..n} - {i}. (t - x j) / (x i - x j)))" if "i \<in> {..n}" for i
  proof -
    have "card ({..n} - {i}) = n" using that by simp
    then have "is_poly n (\<lambda>t. \<Prod>j\<in>{..n} - {i}. (t - x j))"
      using is_poly_prod_linear[of "{..n} - {i}" x] by simp
    then have "is_poly n (\<lambda>t. (y i / (\<Prod>j\<in>{..n} - {i}. (x i - x j))) * (\<Prod>j\<in>{..n} - {i}. (t - x j)))"
      by (rule is_poly_scale)
    then show ?thesis by (simp add: prod_dividef)
  qed
  have "is_poly n L"
    unfolding L_def by (rule is_poly_sum) (simp_all add: basis)
  then have "is_poly n (\<lambda>t. L t + (- 1) * f t)"
    by (intro is_poly_add is_poly_scale f)
  then have q: "is_poly n (\<lambda>t. L t - f t)" by simp
  have node: "L (x l) = y l" if "l \<le> n" for l
  proof -
    have "L (x l) = (\<Sum>i\<in>{..n}. y i * (if l = i then 1 else 0))"
      unfolding L_def
      by (rule sum.cong) (simp_all add: lagrange_basis_node[OF inj _ that])
    also have "\<dots> = (\<Sum>i\<in>{..n}. if i = l then y i else 0)"
      by (rule sum.cong) auto
    also have "\<dots> = y l" using that by (simp add: sum.delta)
    finally show ?thesis .
  qed
  have "L t - f t = 0"
  proof (rule is_poly_zero_of_roots[OF q])
    show "finite (x ` {..n})" by simp
    show "card (x ` {..n}) = Suc n" using inj by (simp add: card_image)
    show "\<forall>r\<in>x ` {..n}. L r - f r = 0" using node fy by auto
  qed
  then show ?thesis by (simp add: L_def)
qed

lemma lag_term_prod:
  "lag_term xs ys i =
     of_int (ys ! i) * (\<Prod>j\<in>{..<length xs} - {i}. (0 - real_of_int (xs ! j)) / (of_int (xs ! i) - of_int (xs ! j)))"
  unfolding lag_term_def lag_num_def lag_den_def
  by (simp only: of_int_prod of_int_minus of_int_diff prod_dividef diff_0 times_divide_eq_right)

lemma lagrange_value_interpolates:
  fixes f :: "real \<Rightarrow> real"
  assumes d: "distinct (map px ps)" and k: "length ps = Suc n"
    and f: "is_poly n f"
    and on: "\<forall>p\<in>set ps. f (of_int (px p)) = of_int (py p)"
  shows "lagrange_value ps = f 0"
proof -
  let ?xs = "map px ps" and ?ys = "map py ps"
  let ?x = "\<lambda>i. real_of_int (?xs ! i)" and ?y = "\<lambda>i. real_of_int (?ys ! i)"
  have inj: "inj_on ?x {..n}"
  proof (rule inj_onI)
    fix a b assume ab: "a \<in> {..n}" "b \<in> {..n}" "?x a = ?x b"
    then have "?xs ! a = ?xs ! b" by simp
    with nth_eq_iff_index_eq[OF d, of a b] ab k show "a = b" by simp
  qed
  have fy: "\<forall>i\<le>n. f (?x i) = ?y i"
    using on k by auto
  have "lagrange_value ps = (\<Sum>i\<le>n. ?y i * (\<Prod>j\<in>{..n} - {i}. (0 - ?x j) / (?x i - ?x j)))"
    unfolding lagrange_value_def k lessThan_Suc_atMost
  proof (rule sum.cong)
    fix i assume "i \<in> {..n}"
    then have "lag_den ?xs i \<noteq> 0" using d k by (simp add: distinct_lag_den)
    from lag_term_prod[of ?xs ?ys i] k
    show "lag_term ?xs ?ys i = ?y i * (\<Prod>j\<in>{..n} - {i}. (0 - ?x j) / (?x i - ?x j))"
      by (simp add: lessThan_Suc_atMost)
  qed simp
  also have "\<dots> = f 0"
    by (rule lagrange_interpolation[OF inj f fy])
  finally show ?thesis .
qed

lemma is_poly_poly_eval:
  assumes "length cs \<le> Suc n"
  shows "is_poly n (\<lambda>t. \<Sum>m<length cs. real_of_int (cs ! m) * t ^ m)"
  unfolding is_poly_def
proof (intro exI[of _ "\<lambda>m. if m < length cs then real_of_int (cs ! m) else 0"] allI)
  fix t :: real
  have "(\<Sum>m\<le>n. (if m < length cs then real_of_int (cs ! m) else 0) * t ^ m)
      = (\<Sum>m<length cs. (if m < length cs then real_of_int (cs ! m) else 0) * t ^ m)"
    by (rule sum.mono_neutral_right) (use assms in auto)
  then show "(\<Sum>m<length cs. real_of_int (cs ! m) * t ^ m)
      = (\<Sum>m\<le>n. (if m < length cs then real_of_int (cs ! m) else 0) * t ^ m)"
    by simp
qed

lemma constantViaLagrange_exact:
  assumes d: "distinct (map px points)" and cs: "length cs \<le> length points"
    and on: "\<forall>p\<in>set points. py p = poly_eval cs (px p)"
  shows "constantViaLagrange points = Inr (poly_eval cs 0)"
proof (cases "length points")
  case 0
  then have "points = []" "cs = []" using cs by auto
  then show ?thesis
    by (simp add: constantViaLagrange_def fromBI_eq bind_err_def isInt_def poly_eval_def)
next
  case (Suc n)
  let ?f = "\<lambda>t. \<Sum>m<length cs. real_of_int (cs ! m) * t ^ m"
  have ev: "?f (of_int x) = of_int (poly_eval cs x)" for x
    by (simp add: poly_eval_def)
  have "lagrange_value points = ?f 0"
  proof (rule lagrange_value_interpolates[OF d Suc])
    show "is_poly n ?f" using cs Suc by (simp add: is_poly_poly_eval)
    show "\<forall>p\<in>set points. ?f (of_int (px p)) = of_int (py p)"
      using on ev by simp
  qed
  also have "\<dots> = of_int (poly_eval cs 0)" using ev[of 0] by simp
  finally have "lagrange_value points = of_int (poly_eval cs 0)" .
  then show ?thesis using d by (simp add: constantViaLagrange_char)
qed

section \<open>Facts about the subset generator\<close>

text \<open>
  The index arrays the generator works on: \<open>k\<close> strictly increasing indices below \<open>n\<close>.
\<close>

definition valid_combo :: "nat \<Rightarrow> nat \<Rightarrow> nat list \<Rightarrow> bool" where
  "valid_combo n k c \<longleftrightarrow> length c = k \<and> sorted_wrt (<) c \<and> (\<forall>v\<in>set c. v < n)"

lemma kc_scan_None:
  "kc_scan n k idx c = None \<longleftrightarrow> (\<forall>i<c. int (idx ! i) = int i + int n - int k)"
  by (induction c) (auto simp: less_Suc_eq)

lemma kc_scan_Some:
  "kc_scan n k idx c = Some i \<Longrightarrow>
     i < c \<and> int (idx ! i) \<noteq> int i + int n - int k \<and>
     (\<forall>j. i < j \<and> j < c \<longrightarrow> int (idx ! j) = int j + int n - int k)"
  by (induction c) (auto simp: less_Suc_eq split: if_splits)

lemma kc_reset_nth:
  "m \<le> length a \<Longrightarrow>
   length (fold (\<lambda>j a. a[j := a ! (j - 1) + 1]) [i + 1..<m] a) = length a \<and>
   (\<forall>j<length a. fold (\<lambda>j a. a[j := a ! (j - 1) + 1]) [i + 1..<m] a ! j
        = (if i < j \<and> j < m then a ! i + (j - i) else a ! j))"
proof (induction m)
  case 0
  then show ?case by simp
next
  case (Suc m)
  let ?F = "\<lambda>m. fold (\<lambda>j a. a[j := a ! (j - 1) + 1]) [i + 1..<m] a"
  from Suc have IH: "length (?F m) = length a"
    "\<And>j. j < length a \<Longrightarrow> ?F m ! j = (if i < j \<and> j < m then a ! i + (j - i) else a ! j)"
    by simp_all
  show ?case
  proof (cases "i < m")
    case False
    then have "[i + 1..<Suc m] = []" by simp
    with False show ?thesis by auto
  next
    case True
    then have upt: "[i + 1..<Suc m] = [i + 1..<m] @ [m]" by simp
    have F: "?F (Suc m) = (?F m)[m := ?F m ! (m - 1) + 1]"
      unfolding upt by simp
    have prev: "?F m ! (m - 1) = a ! i + (m - 1 - i)"
    proof (cases "i < m - 1")
      case True
      with IH(2)[of "m - 1"] Suc.prems show ?thesis by simp
    next
      case False
      with \<open>i < m\<close> have "m - 1 = i" by simp
      with IH(2)[of "m - 1"] Suc.prems show ?thesis by simp
    qed
    have len: "length (?F (Suc m)) = length a" using F IH(1) by simp
    have "?F (Suc m) ! j = (if i < j \<and> j < Suc m then a ! i + (j - i) else a ! j)"
      if j: "j < length a" for j
    proof (cases "j = m")
      case True
      with F IH(1) j prev \<open>i < m\<close> show ?thesis by simp
    next
      case False
      with F IH(2)[OF j] show ?thesis by (auto simp: less_Suc_eq)
    qed
    with len show ?thesis by blast
  qed
qed

lemma strict_sorted_gap:
  fixes c :: "nat list"
  shows "sorted_wrt (<) c \<Longrightarrow> j \<le> i \<Longrightarrow> i < length c \<Longrightarrow> c ! j + (i - j) \<le> c ! i"
proof (induction i)
  case 0
  then show ?case by simp
next
  case (Suc i)
  show ?case
  proof (cases "j = Suc i")
    case True
    then show ?thesis by simp
  next
    case False
    with Suc.prems have ji: "j \<le> i" by simp
    have "c ! i < c ! Suc i"
      using Suc.prems by (simp add: sorted_wrt_nth_less)
    moreover have "c ! j + (i - j) \<le> c ! i" using Suc ji by simp
    ultimately show ?thesis using ji by simp
  qed
qed

lemma valid_combo_upper:
  assumes "valid_combo n k c" "i < k"
  shows "c ! i + k \<le> n + i"
proof -
  from assms have len: "length c = k" and s: "sorted_wrt (<) c" by (simp_all add: valid_combo_def)
  have "c ! i + (k - 1 - i) \<le> c ! (k - 1)"
    using strict_sorted_gap[OF s, of i "k - 1"] assms(2) len by simp
  moreover have "c ! (k - 1) < n"
    using assms len by (simp add: valid_combo_def)
  ultimately show ?thesis using assms(2) by simp
qed

lemma list_less_nth:
  fixes xs ys :: "nat list"
  assumes "length xs = length ys"
  shows "xs < ys \<longleftrightarrow> (\<exists>p<length xs. take p xs = take p ys \<and> xs ! p < ys ! p)"
  using assms by (auto simp: list_less_def lexord_take_index_conv)

lemma pointwise_le_lex:
  fixes xs ys :: "nat list"
  shows "length xs = length ys \<Longrightarrow> \<forall>i<length xs. xs ! i \<le> ys ! i \<Longrightarrow> xs \<le> ys"
proof (induction xs ys rule: list_induct2)
  case Nil
  then show ?case by simp
next
  case (Cons x xs y ys)
  have "x \<le> y" using Cons.prems by (metis length_Cons nth_Cons_0 zero_less_Suc)
  moreover have "\<forall>i<length xs. xs ! i \<le> ys ! i"
    using Cons.prems by (metis Suc_less_eq length_Cons nth_Cons_Suc)
  ultimately show ?case using Cons.IH by (auto simp: le_less)
qed

text \<open>What one turn of the loop does to a valid index array.\<close>

lemma kc_next_None_max:
  assumes v: "valid_combo n k idx" and nx: "kc_next n k idx = None" and c: "valid_combo n k c"
  shows "c \<le> idx"
proof -
  from nx have sc: "kc_scan n k idx k = None" by (simp add: kc_next_def split: option.splits)
  have "\<forall>i<length c. c ! i \<le> idx ! i"
  proof (intro allI impI)
    fix i assume "i < length c"
    then have i: "i < k" using c by (simp add: valid_combo_def)
    from sc i have "int (idx ! i) = int i + int n - int k" by (simp add: kc_scan_None)
    moreover have "c ! i + k \<le> n + i" by (rule valid_combo_upper[OF c i])
    ultimately show "c ! i \<le> idx ! i" by linarith
  qed
  moreover have "length c = length idx" using v c by (simp add: valid_combo_def)
  ultimately show ?thesis by (rule pointwise_le_lex[rotated])
qed

lemma kc_next_Some:
  assumes v: "valid_combo n k idx" and nx: "kc_next n k idx = Some idx'"
  obtains i where "i < k" "idx ! i + k < n + i" "length idx' = k"
    "\<And>j. j < k \<Longrightarrow> idx' ! j = (if j < i then idx ! j else idx ! i + 1 + (j - i))"
proof -
  from v have len: "length idx = k" by (simp add: valid_combo_def)
  from nx obtain i where sc: "kc_scan n k idx k = Some i"
    and idx': "idx' = fold (\<lambda>j a. a[j := a ! (j - 1) + 1]) [i + 1..<k] (idx[i := idx ! i + 1])"
    by (auto simp: kc_next_def split: option.splits)
  from kc_scan_Some[OF sc] have i: "i < k" and ne: "int (idx ! i) \<noteq> int i + int n - int k"
    by simp_all
  have "idx ! i + k \<le> n + i" by (rule valid_combo_upper[OF v i])
  with ne have lt: "idx ! i + k < n + i" by linarith
  let ?a = "idx[i := idx ! i + 1]"
  have la: "k \<le> length ?a" using len by simp
  from kc_reset_nth[OF la, of i] idx' len
  have l': "length idx' = k"
    and nth': "\<And>j. j < k \<Longrightarrow> idx' ! j = (if i < j \<and> j < k then ?a ! i + (j - i) else ?a ! j)"
    by simp_all
  have "idx' ! j = (if j < i then idx ! j else idx ! i + 1 + (j - i))" if "j < k" for j
    using nth'[OF that] that i len by (cases "j = i") auto
  with i lt l' that show thesis by blast
qed

lemma kc_next_valid:
  assumes v: "valid_combo n k idx" and nx: "kc_next n k idx = Some idx'"
  shows "valid_combo n k idx'"
proof -
  from v have len: "length idx = k" and s: "sorted_wrt (<) idx" by (simp_all add: valid_combo_def)
  obtain i where i: "i < k" and lt: "idx ! i + k < n + i" and l': "length idx' = k"
    and nth': "\<And>j. j < k \<Longrightarrow> idx' ! j = (if j < i then idx ! j else idx ! i + 1 + (j - i))"
    using kc_next_Some[OF v nx] by blast
  have mono: "idx' ! a < idx' ! b" if "a < b" "b < k" for a b
  proof -
    from that have a: "a < k" by simp
    show ?thesis
    proof (cases "b < i")
      case True
      then show ?thesis using nth'[OF a] nth'[OF that(2)] that s len
        by (simp add: sorted_wrt_nth_less)
    next
      case False
      show ?thesis
      proof (cases "a < i")
        case True
        then have "idx ! a < idx ! i" using s len i by (simp add: sorted_wrt_nth_less)
        then show ?thesis using nth'[OF a] nth'[OF that(2)] True False by simp
      next
        case False
        then show ?thesis using nth'[OF a] nth'[OF that(2)] that by simp
      qed
    qed
  qed
  have s': "sorted_wrt (<) idx'"
    using mono l' by (simp add: sorted_wrt_iff_nth_less)
  have "idx' ! j < n" if "j < k" for j
    using nth'[OF that] that i lt
  proof (cases "j < i")
    case True
    then have "idx ! j < idx ! i" using s len i by (simp add: sorted_wrt_nth_less)
    with True nth'[OF that] lt i show ?thesis by simp
  next
    case False
    with nth'[OF that] lt that show ?thesis by simp
  qed
  then have "\<forall>v\<in>set idx'. v < n" using l' by (auto simp: in_set_conv_nth)
  with s' l' show ?thesis by (simp add: valid_combo_def)
qed

lemma kc_next_greater:
  assumes v: "valid_combo n k idx" and nx: "kc_next n k idx = Some idx'"
  shows "idx < idx'"
proof -
  from v have len: "length idx = k" by (simp add: valid_combo_def)
  obtain i where i: "i < k" and l': "length idx' = k"
    and nth': "\<And>j. j < k \<Longrightarrow> idx' ! j = (if j < i then idx ! j else idx ! i + 1 + (j - i))"
    using kc_next_Some[OF v nx] by blast
  have "take i idx = take i idx'"
    by (rule nth_take_lemma) (use i len l' nth' in auto)
  moreover have "idx ! i < idx' ! i" using nth'[OF i] by simp
  ultimately show ?thesis using i len l' by (auto simp: list_less_nth)
qed

lemma kc_next_least:
  assumes v: "valid_combo n k idx" and nx: "kc_next n k idx = Some idx'"
    and c: "valid_combo n k c" and lt: "idx < c"
  shows "idx' \<le> c"
proof -
  from v have len: "length idx = k" by (simp add: valid_combo_def)
  from c have lc: "length c = k" and sc: "sorted_wrt (<) c" by (simp_all add: valid_combo_def)
  from nx obtain i0 where scan: "kc_scan n k idx k = Some i0"
    by (auto simp: kc_next_def split: option.splits)
  obtain i where i: "i < k" and l': "length idx' = k"
    and nth': "\<And>j. j < k \<Longrightarrow> idx' ! j = (if j < i then idx ! j else idx ! i + 1 + (j - i))"
    and mx: "\<And>j. i < j \<Longrightarrow> j < k \<Longrightarrow> int (idx ! j) = int j + int n - int k"
  proof -
    from nx scan have idx': "idx' = fold (\<lambda>j a. a[j := a ! (j - 1) + 1]) [i0 + 1..<k] (idx[i0 := idx ! i0 + 1])"
      by (auto simp: kc_next_def)
    from kc_scan_Some[OF scan] have i0: "i0 < k"
      and mx0: "\<And>j. i0 < j \<Longrightarrow> j < k \<Longrightarrow> int (idx ! j) = int j + int n - int k"
      by simp_all
    let ?a = "idx[i0 := idx ! i0 + 1]"
    have la: "k \<le> length ?a" using len by simp
    from kc_reset_nth[OF la, of i0] idx' len
    have l0: "length idx' = k"
      and n0: "\<And>j. j < k \<Longrightarrow> idx' ! j = (if i0 < j \<and> j < k then ?a ! i0 + (j - i0) else ?a ! j)"
      by simp_all
    have "idx' ! j = (if j < i0 then idx ! j else idx ! i0 + 1 + (j - i0))" if "j < k" for j
      using n0[OF that] that i0 len by (cases "j = i0") auto
    with i0 l0 mx0 that show thesis by blast
  qed
  from lt len lc obtain p where p: "p < k" "take p idx = take p c" "idx ! p < c ! p"
    by (auto simp: list_less_nth)
  have pre: "idx ! j = c ! j" if "j < p" for j
    using p(2) that by (metis nth_take)
  have p_le: "p \<le> i"
  proof (rule ccontr)
    assume "\<not> p \<le> i"
    then have "int (idx ! p) = int p + int n - int k" using mx p(1) by simp
    moreover have "c ! p + k \<le> n + p" by (rule valid_combo_upper[OF c p(1)])
    ultimately show False using p(3) by linarith
  qed
  show ?thesis
  proof (cases "p < i")
    case True
    have "take p idx' = take p c"
      by (rule nth_take_lemma) (use True i l' lc nth' pre in auto)
    moreover have "idx' ! p < c ! p" using nth'[OF p(1)] True p(3) by simp
    ultimately have "idx' < c" using p(1) l' lc by (auto simp: list_less_nth)
    then show ?thesis by simp
  next
    case False
    with p_le have pi: "p = i" by simp
    have ti: "take i idx' = take i c"
      by (rule nth_take_lemma) (use pi i l' lc nth' pre in auto)
    have ge: "idx' ! i \<le> c ! i" using nth'[OF i] p(3) pi by simp
    show ?thesis
    proof (cases "idx' ! i < c ! i")
      case True
      with ti i l' lc have "idx' < c" by (auto simp: list_less_nth)
      then show ?thesis by simp
    next
      case False
      with ge have eq: "idx' ! i = c ! i" by simp
      have "\<forall>j<length idx'. idx' ! j \<le> c ! j"
      proof (intro allI impI)
        fix j assume "j < length idx'"
        then have j: "j < k" using l' by simp
        show "idx' ! j \<le> c ! j"
        proof (cases "j < i")
          case True
          then show ?thesis using nth'[OF j] pre pi by simp
        next
          case False
          then have "c ! i + (j - i) \<le> c ! j"
            using strict_sorted_gap[OF sc, of i j] j lc by simp
          moreover have "idx' ! j = idx' ! i + (j - i)"
            using nth'[OF j] nth'[OF i] False by simp
          ultimately show ?thesis using eq by simp
        qed
      qed
      then show ?thesis using l' lc by (intro pointwise_le_lex) simp_all
    qed
  qed
qed


lemma finite_valid_combo: "finite {c. valid_combo n k c}"
proof -
  have "{c. valid_combo n k c} \<subseteq> {c. set c \<subseteq> {..<n} \<and> length c = k}"
    by (auto simp: valid_combo_def)
  moreover have "finite {c. set c \<subseteq> {..<n} \<and> length c = k}"
    by (rule finite_lists_length_eq) simp
  ultimately show ?thesis by (rule finite_subset)
qed

lemma kc_from_total:
  assumes "valid_combo n k idx"
  shows "\<exists>l. kc_from n k idx = Some l \<and> sorted_wrt (<) l \<and>
             set l = {c. valid_combo n k c \<and> idx \<le> c} \<and> hd l = idx \<and> l \<noteq> []"
  using assms
proof (induction "card {c. valid_combo n k c \<and> idx < c}" arbitrary: idx rule: less_induct)
  case less
  note v = less.prems
  show ?case
  proof (cases "kc_next n k idx")
    case None
    have "c = idx" if "valid_combo n k c" "idx \<le> c" for c
      using kc_next_None_max[OF v None that(1)] that(2) by simp
    then have "{c. valid_combo n k c \<and> idx \<le> c} = {idx}" using v by auto
    moreover have "kc_from n k idx = Some [idx]"
      using None by (subst kc_from.simps) simp
    ultimately show ?thesis by simp
  next
    case (Some idx')
    have v': "valid_combo n k idx'" by (rule kc_next_valid[OF v Some])
    have gt: "idx < idx'" by (rule kc_next_greater[OF v Some])
    have "{c. valid_combo n k c \<and> idx' < c} \<subseteq> {c. valid_combo n k c \<and> idx < c}"
      using gt by (auto intro: less_trans)
    moreover have "idx' \<in> {c. valid_combo n k c \<and> idx < c}" using v' gt by simp
    moreover have "idx' \<notin> {c. valid_combo n k c \<and> idx' < c}" by simp
    ultimately have "{c. valid_combo n k c \<and> idx' < c} \<subset> {c. valid_combo n k c \<and> idx < c}"
      by blast
    moreover have "finite {c. valid_combo n k c \<and> idx < c}"
      using finite_valid_combo[of n k] by simp
    ultimately have "card {c. valid_combo n k c \<and> idx' < c} < card {c. valid_combo n k c \<and> idx < c}"
      by (rule psubset_card_mono[rotated])
    from less.hyps[OF this v'] obtain l where l: "kc_from n k idx' = Some l" "sorted_wrt (<) l"
      "set l = {c. valid_combo n k c \<and> idx' \<le> c}" "hd l = idx'" "l \<noteq> []"
      by blast
    have kf: "kc_from n k idx = Some (idx # l)"
      using Some l(1) by (subst kc_from.simps) simp
    have "\<forall>c\<in>set l. idx < c" using l(3) gt by (auto intro: less_le_trans)
    then have srt: "sorted_wrt (<) (idx # l)" using l(2) by simp
    have "{c. valid_combo n k c \<and> idx \<le> c} = insert idx {c. valid_combo n k c \<and> idx' \<le> c}"
    proof (intro set_eqI iffI)
      fix c assume "c \<in> {c. valid_combo n k c \<and> idx \<le> c}"
      then have c: "valid_combo n k c" "idx \<le> c" by simp_all
      show "c \<in> insert idx {c. valid_combo n k c \<and> idx' \<le> c}"
      proof (cases "c = idx")
        case True
        then show ?thesis by simp
      next
        case False
        with c(2) have "idx < c" by simp
        from kc_next_least[OF v Some c(1) this] c(1) show ?thesis by simp
      qed
    next
      fix c assume "c \<in> insert idx {c. valid_combo n k c \<and> idx' \<le> c}"
      then show "c \<in> {c. valid_combo n k c \<and> idx \<le> c}"
        using v gt by (auto intro: less_imp_le less_le_trans)
    qed
    with l(3) have "set (idx # l) = {c. valid_combo n k c \<and> idx \<le> c}" by simp
    with kf srt show ?thesis by simp
  qed
qed

lemma valid_combo_first:
  assumes "k \<le> n"
  shows "valid_combo n k [0..<k]"
  using assms by (auto simp: valid_combo_def strict_sorted_iff)

lemma valid_combo_first_least:
  assumes "valid_combo n k c"
  shows "[0..<k] \<le> c"
proof (rule pointwise_le_lex)
  from assms have len: "length c = k" and s: "sorted_wrt (<) c" by (simp_all add: valid_combo_def)
  show "length [0..<k] = length c" using len by simp
  show "\<forall>i<length [0..<k]. [0..<k] ! i \<le> c ! i"
  proof (intro allI impI)
    fix i assume "i < length [0..<k]"
    then have i: "i < k" by simp
    from strict_sorted_gap[OF s, of 0 i] i len have "i \<le> c ! i" by simp
    with i show "[0..<k] ! i \<le> c ! i" by simp
  qed
qed

lemma valid_combo_sorted_list_of_set:
  "{c. valid_combo n k c} = sorted_list_of_set ` {S. S \<subseteq> {..<n} \<and> card S = k}"
proof (intro set_eqI iffI)
  fix c assume "c \<in> {c. valid_combo n k c}"
  then have c: "length c = k" "sorted_wrt (<) c" "set c \<subseteq> {..<n}"
    by (auto simp: valid_combo_def)
  then have sd: "sorted c" "distinct c" by (simp_all add: strict_sorted_iff)
  then have "sorted_list_of_set (set c) = c"
    by (simp add: sorted_list_of_set.idem_if_sorted_distinct)
  moreover have "card (set c) = k" using sd c(1) by (simp add: distinct_card)
  ultimately have "c = sorted_list_of_set (set c)" "set c \<in> {S. S \<subseteq> {..<n} \<and> card S = k}"
    using c(3) by simp_all
  then show "c \<in> sorted_list_of_set ` {S. S \<subseteq> {..<n} \<and> card S = k}"
    by (rule image_eqI)
next
  fix c assume "c \<in> sorted_list_of_set ` {S. S \<subseteq> {..<n} \<and> card S = k}"
  then obtain S where S: "S \<subseteq> {..<n}" "card S = k" "c = sorted_list_of_set S" by auto
  have fin: "finite S" by (rule finite_subset[OF S(1)]) simp
  have "length c = k" using S(2,3) fin by simp
  moreover have "sorted_wrt (<) c" using S(3) fin by simp
  moreover have "\<forall>v\<in>set c. v < n" using S(1,3) fin by auto
  ultimately show "c \<in> {c. valid_combo n k c}"
    by (simp add: valid_combo_def)
qed

lemma card_valid_combo: "card {c. valid_combo n k c} = n choose k"
proof -
  have inj: "inj_on sorted_list_of_set {S. S \<subseteq> {..<n} \<and> card S = k}"
  proof (rule inj_onI)
    fix A B :: "nat set"
    assume A: "A \<in> {S. S \<subseteq> {..<n} \<and> card S = k}" and B: "B \<in> {S. S \<subseteq> {..<n} \<and> card S = k}"
      and eq: "sorted_list_of_set A = sorted_list_of_set B"
    have fA: "finite A" by (rule finite_subset[of _ "{..<n}"]) (use A in simp_all)
    have fB: "finite B" by (rule finite_subset[of _ "{..<n}"]) (use B in simp_all)
    have "set (sorted_list_of_set A) = set (sorted_list_of_set B)"
      using eq by (rule arg_cong)
    then show "A = B" using fA fB by (simp only: set_sorted_list_of_set)
  qed
  have "card {c. valid_combo n k c} = card {S. S \<subseteq> {..<n} \<and> card S = k}"
    unfolding valid_combo_sorted_list_of_set by (rule card_image[OF inj])
  also have "\<dots> = n choose k" using n_subsets[of "{..<n}" k] by simp
  finally show ?thesis .
qed

lemma kCombinations_valid:
  assumes "k \<le> n"
  shows "\<exists>cs. kCombinations n k = Some cs \<and> sorted_wrt (<) cs \<and>
    set cs = {c. valid_combo n k c} \<and> hd cs = [0..<k] \<and> cs \<noteq> []"
proof -
  from kc_from_total[OF valid_combo_first[OF assms]]
  obtain l where l: "kc_from n k [0..<k] = Some l" "sorted_wrt (<) l"
    "set l = {c. valid_combo n k c \<and> [0..<k] \<le> c}" "hd l = [0..<k]" "l \<noteq> []"
    by blast
  have "{c. valid_combo n k c \<and> [0..<k] \<le> c} = {c. valid_combo n k c}"
    using valid_combo_first_least[of n k] by blast
  with l(3) have st: "set l = {c. valid_combo n k c}" by simp
  have "kCombinations n k = Some l" unfolding kCombinations_def by (rule l(1))
  then show ?thesis using l(2) st l(4) l(5) by blast
qed

section \<open>Facts about the vote tally and the selection\<close>

text \<open>
  The key a subset votes for, if its interpolation attempt succeeds, and the keys voted for
  by a list of subsets, in the order of the subsets.
\<close>

definition vote_key :: "point list \<Rightarrow> nat list \<Rightarrow> string option" where
  "vote_key points combo =
     (if \<exists>i \<in> set combo. length points \<le> i then None
      else case constantViaLagrange (map (\<lambda>i. points ! i) combo) of
             Inl e \<Rightarrow> None
           | Inr c \<Rightarrow> Some (toStringBI c))"

definition vote_keys :: "point list \<Rightarrow> nat list list \<Rightarrow> string list" where
  "vote_keys points combos = List.map_filter (vote_key points) combos"

text \<open>One more vote for \<open>key\<close> in a tally.\<close>

definition count_vote :: "'k \<Rightarrow> ('k \<times> nat) list \<Rightarrow> ('k \<times> nat) list" where
  "count_vote key m = map_set m key ((case map_of m key of None \<Rightarrow> 0 | Some v \<Rightarrow> v) + 1)"

text \<open>The position of the first occurrence of \<open>v\<close> in a list (its length if there is none).\<close>

definition first_pos :: "'a list \<Rightarrow> 'a \<Rightarrow> nat" where
  "first_pos ks v = length (takeWhile (\<lambda>u. u \<noteq> v) ks)"

lemma map_fst_map_set:
  "map fst (map_set m key v) = (if key \<in> set (map fst m) then map fst m else map fst m @ [key])"
proof (induction m)
  case Nil
  then show ?case by simp
next
  case (Cons e m)
  obtain a b where e: "e = (a, b)" by (cases e)
  show ?case
  proof (cases "a = key")
    case True
    with e show ?thesis by simp
  next
    case False
    with e Cons.IH show ?thesis by (cases "key \<in> set (map fst m)") simp_all
  qed
qed

lemma map_of_map_set: "map_of (map_set m key v) = (map_of m)(key \<mapsto> v)"
  by (induction m) auto

lemma vote_step_None: "vote_key points combo = None \<Longrightarrow> vote_step points combo st = st"
  by (auto simp: vote_key_def vote_step_def split: sum.splits if_splits)

lemma vote_step_Some:
  "vote_key points combo = Some key \<Longrightarrow>
     counts (vote_step points combo st) = count_vote key (counts st)"
  by (auto simp: vote_key_def vote_step_def count_vote_def Let_def split: sum.splits if_splits)

lemma counts_fold_vote_step:
  "counts (fold (vote_step points) combos st)
     = fold count_vote (vote_keys points combos) (counts st)"
proof (induction combos arbitrary: st)
  case Nil
  then show ?case by (simp add: vote_keys_def map_filter_simps)
next
  case (Cons combo combos)
  show ?case
  proof (cases "vote_key points combo")
    case None
    then show ?thesis
      using Cons.IH[of st] by (simp add: vote_keys_def map_filter_simps vote_step_None)
  next
    case (Some key)
    then show ?thesis
      using Cons.IH[of "vote_step points combo st"]
      by (simp add: vote_keys_def map_filter_simps vote_step_Some)
  qed
qed

lemma counts_vote_all:
  "counts (vote_all points combos) = fold count_vote (vote_keys points combos) []"
  by (simp add: vote_all_def counts_fold_vote_step vote_init_def)

text \<open>The tally of a list of keys.\<close>

lemma tally_snoc: "fold count_vote (ks @ [key]) m = count_vote key (fold count_vote ks m)"
  by simp

lemma tally_keys_set: "set (map fst (fold count_vote ks [])) = set ks"
proof (induction ks rule: rev_induct)
  case Nil
  then show ?case by simp
next
  case (snoc key ks)
  then show ?case
    by (auto simp: count_vote_def map_fst_map_set simp del: map_map set_map)
qed

lemma tally_keys_distinct: "distinct (map fst (fold count_vote ks []))"
proof (induction ks rule: rev_induct)
  case Nil
  then show ?case by simp
next
  case (snoc key ks)
  then show ?case
    by (simp add: count_vote_def map_fst_map_set del: map_map set_map)
qed

lemma tally_count:
  "map_of (fold count_vote ks []) v = (if v \<in> set ks then Some (count_list ks v) else None)"
proof (induction ks rule: rev_induct)
  case Nil
  then show ?case by simp
next
  case (snoc key ks)
  then show ?case
    by (auto simp: count_vote_def map_of_map_set)
qed

lemma first_pos_Nil [simp]: "first_pos [] v = 0"
  by (simp add: first_pos_def)

lemma first_pos_Cons [simp]:
  "first_pos (a # ks) v = (if a = v then 0 else Suc (first_pos ks v))"
  by (simp add: first_pos_def)

lemma first_pos_less_length: "v \<in> set ks \<Longrightarrow> first_pos ks v < length ks"
  by (induction ks) auto

lemma first_pos_nth: "v \<in> set ks \<Longrightarrow> ks ! first_pos ks v = v"
  by (induction ks) auto

lemma first_pos_append_in: "v \<in> set ks \<Longrightarrow> first_pos (ks @ ks') v = first_pos ks v"
  by (induction ks) auto

lemma first_pos_append_notin:
  "v \<notin> set ks \<Longrightarrow> first_pos (ks @ ks') v = length ks + first_pos ks' v"
  by (induction ks) auto

lemma first_pos_distinct_nth:
  "distinct ks \<Longrightarrow> i < length ks \<Longrightarrow> first_pos ks (ks ! i) = i"
proof (induction ks arbitrary: i)
  case Nil
  then show ?case by simp
next
  case (Cons a ks)
  then show ?case by (cases i) auto
qed

text \<open>The keys of the tally stand in the order of their first occurrence.\<close>

lemma tally_order:
  assumes "u \<in> set ks" "v \<in> set ks"
  shows "first_pos (map fst (fold count_vote ks [])) u \<le> first_pos (map fst (fold count_vote ks [])) v
     \<longleftrightarrow> first_pos ks u \<le> first_pos ks v"
  using assms
proof (induction ks arbitrary: u v rule: rev_induct)
  case Nil
  then show ?case by simp
next
  case (snoc key ks)
  let ?t = "map fst (fold count_vote ks [])"
  have st: "set ?t = set ks" by (rule tally_keys_set)
  show ?case
  proof (cases "key \<in> set ks")
    case True
    then have t': "map fst (fold count_vote (ks @ [key]) []) = ?t"
      using st by (simp add: count_vote_def map_fst_map_set del: map_map set_map)
    from snoc.prems True have uv: "u \<in> set ks" "v \<in> set ks" by auto
    then show ?thesis using snoc.IH[OF uv] unfolding t' by (simp add: first_pos_append_in)
  next
    case False
    then have t': "map fst (fold count_vote (ks @ [key]) []) = ?t @ [key]"
      using st by (simp add: count_vote_def map_fst_map_set del: map_map set_map)
    have kt: "key \<notin> set ?t" using False st by blast
    have kpt: "first_pos (?t @ [key]) key = length ?t"
      using first_pos_append_notin[OF kt, of "[key]"] by simp
    have kpk: "first_pos (ks @ [key]) key = length ks"
      using first_pos_append_notin[OF False, of "[key]"] by simp
    have in_t: "first_pos (?t @ [key]) w = first_pos ?t w \<and> first_pos ?t w < length ?t"
      if "w \<in> set ks" for w
    proof -
      from that st have wt: "w \<in> set ?t" by blast
      show ?thesis using first_pos_append_in[OF wt] first_pos_less_length[OF wt] by simp
    qed
    have in_k: "first_pos (ks @ [key]) w = first_pos ks w \<and> first_pos ks w < length ks"
      if "w \<in> set ks" for w
      using first_pos_append_in[OF that] first_pos_less_length[OF that] by simp
    consider "u \<in> set ks" "v \<in> set ks" | "u \<in> set ks" "v = key" | "u = key" "v \<in> set ks" | "u = key" "v = key"
      using snoc.prems by auto
    then show ?thesis
    proof cases
      case 1
      then show ?thesis using snoc.IH[OF 1] in_t[OF 1(1)] in_t[OF 1(2)] in_k[OF 1(1)] in_k[OF 1(2)]
        unfolding t' by simp
    next
      case 2
      then show ?thesis using in_t[OF 2(1)] in_k[OF 2(1)] kpt kpk unfolding t' by simp
    next
      case 3
      then show ?thesis using in_t[OF 3(2)] in_k[OF 3(2)] kpt kpk unfolding t' by simp
    next
      case 4
      then show ?thesis by simp
    qed
  qed
qed

text \<open>The selection loop returns the first entry with the greatest count.\<close>

lemma best_loop_spec:
  assumes "best_loop es (b, bc) = (b', bc')"
  shows "(b' = b \<and> bc' = bc \<and> (\<forall>j<length es. int (snd (es ! j)) \<le> bc)) \<or>
         (\<exists>i<length es. b' = Some (fst (es ! i)) \<and> bc' = int (snd (es ! i)) \<and> bc < bc' \<and>
            (\<forall>j<i. int (snd (es ! j)) < bc') \<and> (\<forall>j<length es. int (snd (es ! j)) \<le> bc'))"
  using assms
proof (induction es arbitrary: b bc)
  case Nil
  then show ?case by simp
next
  case (Cons e es)
  obtain k c where e: "e = (k, c)" by (cases e)
  show ?case
  proof (cases "int c > bc")
    case True
    with Cons.prems e have "best_loop es (Some k, int c) = (b', bc')" by simp
    from Cons.IH[OF this] show ?thesis
    proof
      assume h: "b' = Some k \<and> bc' = int c \<and> (\<forall>j<length es. int (snd (es ! j)) \<le> int c)"
      have "\<forall>j<length (e # es). int (snd ((e # es) ! j)) \<le> bc'"
        using h e by (auto simp: nth_Cons split: nat.splits)
      with h e True have "0 < length (e # es) \<and> b' = Some (fst ((e # es) ! 0)) \<and>
          bc' = int (snd ((e # es) ! 0)) \<and> bc < bc' \<and>
          (\<forall>j<0. int (snd ((e # es) ! j)) < bc') \<and> (\<forall>j<length (e # es). int (snd ((e # es) ! j)) \<le> bc')"
        by simp
      then show ?thesis by blast
    next
      assume "\<exists>i<length es. b' = Some (fst (es ! i)) \<and> bc' = int (snd (es ! i)) \<and> int c < bc' \<and>
            (\<forall>j<i. int (snd (es ! j)) < bc') \<and> (\<forall>j<length es. int (snd (es ! j)) \<le> bc')"
      then obtain i where i: "i < length es" "b' = Some (fst (es ! i))" "bc' = int (snd (es ! i))"
        "int c < bc'" "\<forall>j<i. int (snd (es ! j)) < bc'" "\<forall>j<length es. int (snd (es ! j)) \<le> bc'"
        by blast
      have "Suc i < length (e # es) \<and> b' = Some (fst ((e # es) ! Suc i)) \<and>
          bc' = int (snd ((e # es) ! Suc i)) \<and> bc < bc' \<and>
          (\<forall>j<Suc i. int (snd ((e # es) ! j)) < bc') \<and> (\<forall>j<length (e # es). int (snd ((e # es) ! j)) \<le> bc')"
        using i e True by (auto simp: nth_Cons split: nat.splits)
      then show ?thesis by blast
    qed
  next
    case False
    with Cons.prems e have "best_loop es (b, bc) = (b', bc')" by simp
    from Cons.IH[OF this] show ?thesis
    proof
      assume h: "b' = b \<and> bc' = bc \<and> (\<forall>j<length es. int (snd (es ! j)) \<le> bc)"
      then have "\<forall>j<length (e # es). int (snd ((e # es) ! j)) \<le> bc"
        using False e by (auto simp: nth_Cons split: nat.splits)
      with h show ?thesis by blast
    next
      assume "\<exists>i<length es. b' = Some (fst (es ! i)) \<and> bc' = int (snd (es ! i)) \<and> bc < bc' \<and>
            (\<forall>j<i. int (snd (es ! j)) < bc') \<and> (\<forall>j<length es. int (snd (es ! j)) \<le> bc')"
      then obtain i where i: "i < length es" "b' = Some (fst (es ! i))" "bc' = int (snd (es ! i))"
        "bc < bc'" "\<forall>j<i. int (snd (es ! j)) < bc'" "\<forall>j<length es. int (snd (es ! j)) \<le> bc'"
        by blast
      have "Suc i < length (e # es) \<and> b' = Some (fst ((e # es) ! Suc i)) \<and>
          bc' = int (snd ((e # es) ! Suc i)) \<and> bc < bc' \<and>
          (\<forall>j<Suc i. int (snd ((e # es) ! j)) < bc') \<and> (\<forall>j<length (e # es). int (snd ((e # es) ! j)) \<le> bc')"
        using i e False by (auto simp: nth_Cons split: nat.splits)
      then show ?thesis by blast
    qed
  qed
qed

lemma pick_best_spec:
  assumes "es \<noteq> []"
  obtains i where "i < length es" "pick_best es = Some (fst (es ! i))"
    "\<forall>j<i. snd (es ! j) < snd (es ! i)" "\<forall>j<length es. snd (es ! j) \<le> snd (es ! i)"
proof -
  obtain b' bc' where r: "best_loop es (None, - 1) = (b', bc')" by (cases "best_loop es (None, - 1)")
  from best_loop_spec[OF r] show thesis
  proof
    assume "b' = None \<and> bc' = - 1 \<and> (\<forall>j<length es. int (snd (es ! j)) \<le> - 1)"
    moreover have "0 < length es" using assms by simp
    ultimately have "int (snd (es ! 0)) \<le> - 1" by blast
    then show thesis by simp
  next
    assume "\<exists>i<length es. b' = Some (fst (es ! i)) \<and> bc' = int (snd (es ! i)) \<and> - 1 < bc' \<and>
            (\<forall>j<i. int (snd (es ! j)) < bc') \<and> (\<forall>j<length es. int (snd (es ! j)) \<le> bc')"
    then obtain i where i: "i < length es" "b' = Some (fst (es ! i))" "bc' = int (snd (es ! i))"
       "\<forall>j<i. int (snd (es ! j)) < bc'" "\<forall>j<length es. int (snd (es ! j)) \<le> bc'"
      by blast
    show thesis
    proof (rule that[of i])
      show "i < length es" by (rule i(1))
      show "pick_best es = Some (fst (es ! i))" using r i(2) by (simp add: pick_best_def)
      show "\<forall>j<i. snd (es ! j) < snd (es ! i)" using i(3,4) by simp
      show "\<forall>j<length es. snd (es ! j) \<le> snd (es ! i)" using i(3,5) by simp
    qed
  qed
qed

section \<open>Facts about the direct path of the substitution solver\<close>


lemma findIndex_Some:
  "findIndex points t = Some i \<longleftrightarrow>
     i < length points \<and> px (points ! i) = t \<and> (\<forall>j<i. px (points ! j) \<noteq> t)"
proof (induction points arbitrary: i)
  case Nil
  then show ?case by simp
next
  case (Cons p ps)
  show ?case
  proof (cases "px p = t")
    case True
    then show ?thesis by (cases i) auto
  next
    case False
    show ?thesis
    proof (cases i)
      case 0
      with False show ?thesis by auto
    next
      case (Suc i')
      have "(\<forall>j<Suc i'. px ((p # ps) ! j) \<noteq> t) \<longleftrightarrow> (\<forall>j<i'. px (ps ! j) \<noteq> t)"
        using False by (auto simp: less_Suc_eq_0_disj)
      with Suc False Cons.IH[of i'] show ?thesis by auto
    qed
  qed
qed



section \<open>Facts about the winner of a vote\<close>

text \<open>
  \<open>w\<close> is the most frequent element of \<open>ks\<close>, and among the most frequent ones the one
  whose first occurrence comes first.
\<close>

definition first_most_frequent :: "'a list \<Rightarrow> 'a \<Rightarrow> bool" where
  "first_most_frequent ks w \<longleftrightarrow>
     w \<in> set ks \<and>
     (\<forall>v\<in>set ks. count_list ks v \<le> count_list ks w \<and>
        (count_list ks v = count_list ks w \<longrightarrow> first_pos ks w \<le> first_pos ks v))"

text \<open>The key the substitution solver votes for with the subset \<open>idxs\<close>, if any.\<close>

definition sub_vote_key :: "point list \<Rightarrow> nat \<Rightarrow> nat list \<Rightarrow> string option" where
  "sub_vote_key points k idxs =
     (case solveForIndices points k idxs of
        Inl e \<Rightarrow> None
      | Inr cs \<Rightarrow> if cs = [] then None else Some (toStringFrac (last cs)))"

definition sub_vote_keys :: "point list \<Rightarrow> nat \<Rightarrow> nat list list \<Rightarrow> string list" where
  "sub_vote_keys points k combos = List.map_filter (sub_vote_key points k) combos"

definition entry_counts :: "(string \<times> vote_entry) list \<Rightarrow> (string \<times> nat) list" where
  "entry_counts votes = map (\<lambda>(key, v). (key, entry_count v)) votes"

lemma pick_best_tally:
  assumes "ks \<noteq> []"
  shows "\<exists>w. pick_best (fold count_vote ks []) = Some w \<and> first_most_frequent ks w"
proof -
  let ?es = "fold count_vote ks []"
  let ?keys = "map fst ?es"
  have keys: "set ?keys = set ks" by (rule tally_keys_set)
  have dist: "distinct ?keys" by (rule tally_keys_distinct)
  have ne: "?es \<noteq> []" using keys assms by auto
  have cnt: "snd (?es ! j) = count_list ks (fst (?es ! j)) \<and> fst (?es ! j) \<in> set ks"
    if j: "j < length ?es" for j
  proof -
    have mem: "(fst (?es ! j), snd (?es ! j)) \<in> set ?es" using j by simp
    then have "map_of ?es (fst (?es ! j)) = Some (snd (?es ! j))"
      using dist by (simp only: map_of_eq_Some_iff)
    moreover have "fst (?es ! j) \<in> set ?keys" using j by (metis length_map nth_map nth_mem)
    then have "fst (?es ! j) \<in> set ks" using keys by blast
    ultimately show ?thesis using tally_count[of ks "fst (?es ! j)"] by simp
  qed
  obtain i where i: "i < length ?es" "pick_best ?es = Some (fst (?es ! i))"
    "\<forall>j<i. snd (?es ! j) < snd (?es ! i)" "\<forall>j<length ?es. snd (?es ! j) \<le> snd (?es ! i)"
    using pick_best_spec[OF ne] by blast
  let ?w = "fst (?es ! i)"
  have w: "?w \<in> set ks" and cw: "snd (?es ! i) = count_list ks ?w"
    using cnt[OF i(1)] by simp_all
  have pw: "first_pos ?keys ?w = i"
    using first_pos_distinct_nth[OF dist, of i] i(1) by simp
  have "count_list ks v \<le> count_list ks ?w \<and>
        (count_list ks v = count_list ks ?w \<longrightarrow> first_pos ks ?w \<le> first_pos ks v)"
    if v: "v \<in> set ks" for v
  proof -
    from v keys have "v \<in> set ?keys" by blast
    then obtain j where j: "j < length ?keys" "?keys ! j = v" by (auto simp: in_set_conv_nth)
    then have j': "j < length ?es" "fst (?es ! j) = v" by simp_all
    have cv: "snd (?es ! j) = count_list ks v" using cnt[OF j'(1)] j'(2) by simp
    have pv: "first_pos ?keys v = j"
      using first_pos_distinct_nth[OF dist, of j] j by simp
    have le: "count_list ks v \<le> count_list ks ?w" using i(4) j'(1) cv cw by auto
    have "first_pos ks ?w \<le> first_pos ks v" if "count_list ks v = count_list ks ?w"
    proof -
      have "\<not> j < i" using i(3) cv cw that by auto
      then have "first_pos ?keys ?w \<le> first_pos ?keys v" using pw pv by simp
      then show ?thesis using tally_order[OF w v] by simp
    qed
    with le show ?thesis by blast
  qed
  with w have "first_most_frequent ks ?w" by (simp add: first_most_frequent_def)
  with i(2) show ?thesis by blast
qed

lemma tally_empty_iff: "fold count_vote ks [] = [] \<longleftrightarrow> ks = []"
  using tally_keys_set[of ks] by (metis list.map_disc_iff set_empty)

text \<open>The votes of the substitution solver, seen as a tally of keys.\<close>

lemma entry_counts_map_set:
  "entry_counts (map_set votes key e) = map_set (entry_counts votes) key (entry_count e)"
  by (induction votes) (auto simp: entry_counts_def)

lemma map_of_entry_counts:
  "map_of (entry_counts votes) key = map_option entry_count (map_of votes key)"
  by (induction votes) (auto simp: entry_counts_def)

lemma sub_vote_step_None:
  "sub_vote_key points k idxs = None \<Longrightarrow> sub_vote_step points k idxs votes = votes"
  by (auto simp: sub_vote_key_def sub_vote_step_def split: sum.splits if_splits)

lemma sub_vote_step_Some:
  "sub_vote_key points k idxs = Some key \<Longrightarrow>
     entry_counts (sub_vote_step points k idxs votes) = count_vote key (entry_counts votes)"
  by (auto simp: sub_vote_key_def sub_vote_step_def count_vote_def Let_def entry_counts_map_set
       map_of_entry_counts split: sum.splits if_splits option.splits)

lemma entry_counts_fold:
  "entry_counts (fold (sub_vote_step points k) combos votes)
     = fold count_vote (sub_vote_keys points k combos) (entry_counts votes)"
proof (induction combos arbitrary: votes)
  case Nil
  then show ?case by (simp add: sub_vote_keys_def map_filter_simps)
next
  case (Cons combo combos)
  show ?case
  proof (cases "sub_vote_key points k combo")
    case None
    then show ?thesis
      using Cons.IH[of votes] by (simp add: sub_vote_keys_def map_filter_simps sub_vote_step_None)
  next
    case (Some key)
    then show ?thesis
      using Cons.IH[of "sub_vote_step points k combo votes"]
      by (simp add: sub_vote_keys_def map_filter_simps sub_vote_step_Some)
  qed
qed

lemma entry_counts_sub_vote_all:
  "entry_counts (sub_vote_all points k combos) = fold count_vote (sub_vote_keys points k combos) []"
  using entry_counts_fold[of points k combos "[]"]
  by (simp add: sub_vote_all_def entry_counts_def)

text \<open>Every entry of the votes keeps coefficients whose last one prints as the key.\<close>

definition entry_ok :: "string \<times> vote_entry \<Rightarrow> bool" where
  "entry_ok kv \<longleftrightarrow>
     example_coeffs (snd kv) \<noteq> [] \<and> toStringFrac (last (example_coeffs (snd kv))) = fst kv"

lemma map_set_entry_ok:
  assumes "\<forall>kv\<in>set votes. entry_ok kv" "entry_ok (key, e)"
  shows "\<forall>kv\<in>set (map_set votes key e). entry_ok kv"
  using assms by (induction votes) (auto split: if_splits)

lemma sub_vote_step_entry_ok:
  assumes "\<forall>kv\<in>set votes. entry_ok kv"
  shows "\<forall>kv\<in>set (sub_vote_step points k idxs votes). entry_ok kv"
proof (cases "solveForIndices points k idxs")
  case (Inl e)
  with assms show ?thesis by (simp add: sub_vote_step_def)
next
  case (Inr cs)
  show ?thesis
  proof (cases "cs = []")
    case True
    with Inr assms show ?thesis by (simp add: sub_vote_step_def)
  next
    case False
    let ?a0 = "toStringFrac (last cs)"
    let ?entry = "case map_of votes ?a0 of
                    None \<Rightarrow> \<lparr>entry_count = 0, example_coeffs = cs, example_idxs = idxs\<rparr>
                  | Some e \<Rightarrow> e"
    have "entry_ok (?a0, ?entry)"
    proof (cases "map_of votes ?a0")
      case None
      with False show ?thesis by (simp add: entry_ok_def)
    next
      case (Some e)
      then have "(?a0, e) \<in> set votes" by (rule map_of_SomeD)
      with assms have "entry_ok (?a0, e)" by blast
      with Some show ?thesis by simp
    qed
    then have "entry_ok (?a0, ?entry\<lparr>entry_count := entry_count ?entry + 1\<rparr>)"
      by (simp add: entry_ok_def)
    from map_set_entry_ok[OF assms this] Inr False show ?thesis
      by (simp add: sub_vote_step_def Let_def)
  qed
qed

lemma sub_vote_fold_entry_ok:
  assumes "\<forall>kv\<in>set votes. entry_ok kv"
  shows "\<forall>kv\<in>set (fold (sub_vote_step points k) combos votes). entry_ok kv"
  using assms
proof (induction combos arbitrary: votes)
  case Nil
  then show ?case by simp
next
  case (Cons combo combos)
  from Cons.IH[OF sub_vote_step_entry_ok[OF Cons.prems]] show ?case by simp
qed

text \<open>The winner loop of the substitution solver selects as the loop of Problem.js does.\<close>

lemma best_entry_best_loop:
  assumes "case best of None \<Rightarrow> acc = (None, - 1)
           | Some (bk, b) \<Rightarrow> acc = (Some bk, int (entry_count b))"
  shows "map_option fst (best_entry es best) = fst (best_loop (entry_counts es) acc)"
  using assms
proof (induction es arbitrary: best acc)
  case Nil
  then show ?case by (auto simp: entry_counts_def split: option.splits)
next
  case (Cons e es)
  obtain key v where e: "e = (key, v)" by (cases e)
  let ?best' = "case best of None \<Rightarrow> Some (key, v)
        | Some (bestKey, b) \<Rightarrow> if entry_count v > entry_count b then Some (key, v) else Some (bestKey, b)"
  let ?acc' = "if int (entry_count v) > snd acc then (Some key, int (entry_count v)) else acc"
  have rel: "case ?best' of None \<Rightarrow> ?acc' = (None, - 1)
           | Some (bk, b) \<Rightarrow> ?acc' = (Some bk, int (entry_count b))"
    using Cons.prems by (auto split: option.splits)
  have "best_loop (entry_counts (e # es)) acc = best_loop (entry_counts es) ?acc'"
    using e by (cases acc) (simp add: entry_counts_def)
  moreover have "best_entry (e # es) best = best_entry es ?best'"
    using e by simp
  ultimately show ?case using Cons.IH[OF rel] by simp
qed

lemma best_entry_pick_best:
  "map_option fst (best_entry es None) = pick_best (entry_counts es)"
  using best_entry_best_loop[where best = None and acc = "(None, - 1)" and es = es]
  by (simp add: pick_best_def)

lemma best_entry_mem:
  "best_entry es best = Some kv \<Longrightarrow> kv \<in> set es \<or> best = Some kv"
proof (induction es arbitrary: best)
  case Nil
  then show ?case by simp
next
  case (Cons e es)
  obtain key v where e: "e = (key, v)" by (cases e)
  from Cons.prems e Cons.IH show ?case
    by (fastforce split: option.splits if_splits)
qed

section \<open>Facts about the two voting loops\<close>

text \<open>
  The entry of a tally that the selection returns: the first one with the greatest count.
\<close>

definition first_max_entry :: "('k \<times> nat) list \<Rightarrow> 'k \<Rightarrow> bool" where
  "first_max_entry es w \<longleftrightarrow>
     (\<exists>i<length es. fst (es ! i) = w \<and> (\<forall>j<i. snd (es ! j) < snd (es ! i)) \<and>
        (\<forall>j<length es. snd (es ! j) \<le> snd (es ! i)))"

lemma pick_best_first_max:
  assumes "es \<noteq> []"
  shows "\<exists>w. pick_best es = Some w \<and> first_max_entry es w"
  using pick_best_spec[OF assms] unfolding first_max_entry_def by metis

lemma map_filter_empty_iff: "List.map_filter f xs = [] \<longleftrightarrow> (\<forall>x\<in>set xs. f x = None)"
  by (induction xs) (auto simp: map_filter_simps split: option.splits)

lemma voting_mode_result:
  assumes "kCombinations (length points) k = Some combos"
  shows "voting_mode points k =
     Some (if vote_keys points combos = [] then Inl NoConsistentSubset
           else Inr (pick_best (fold count_vote (vote_keys points combos) [])))"
  using assms tally_empty_iff[of "vote_keys points combos"]
  by (simp add: voting_mode_def Let_def counts_vote_all)

lemma solve_vote_result:
  assumes "kCombinations (length points) k = Some combos"
  shows "sub_vote_keys points k combos = [] \<Longrightarrow> solve_vote points k = Some (Inl NoConsistentSubset)"
    and "sub_vote_keys points k combos \<noteq> [] \<Longrightarrow>
       \<exists>res. solve_vote points k = Some (Inr res) \<and> coeffs res \<noteq> [] \<and>
         pick_best (fold count_vote (sub_vote_keys points k combos) [])
           = Some (toStringFrac (last (coeffs res)))"
proof -
  let ?votes = "sub_vote_all points k combos"
  have ec: "entry_counts ?votes = fold count_vote (sub_vote_keys points k combos) []"
    by (rule entry_counts_sub_vote_all)
  have pb: "map_option fst (best_entry ?votes None) = pick_best (entry_counts ?votes)"
    by (rule best_entry_pick_best)
  {
    assume "sub_vote_keys points k combos = []"
    then have "entry_counts ?votes = []" using ec by simp
    then have "?votes = []" by (simp add: entry_counts_def)
    then show "solve_vote points k = Some (Inl NoConsistentSubset)"
      using assms by (simp add: solve_vote_def Let_def)
  }
  {
    assume ne: "sub_vote_keys points k combos \<noteq> []"
    then have "entry_counts ?votes \<noteq> []" using ec tally_empty_iff by metis
    then obtain w where w: "pick_best (entry_counts ?votes) = Some w"
      using pick_best_first_max by blast
    with pb obtain kv where kv: "best_entry ?votes None = Some kv" "fst kv = w"
      by (cases "best_entry ?votes None") auto
    from best_entry_mem[OF kv(1)] have mem: "kv \<in> set ?votes" by simp
    have "\<forall>kv\<in>set ?votes. entry_ok kv"
      unfolding sub_vote_all_def by (rule sub_vote_fold_entry_ok) simp
    with mem have ok: "entry_ok kv" by blast
    obtain bk b where b: "kv = (bk, b)" by (cases kv)
    let ?res = "\<lparr>coeffs = example_coeffs b, used_indices = example_idxs b,
                  votes_summary = Some (map (\<lambda>(key, v). (key, entry_count v)) ?votes)\<rparr>"
    have "solve_vote points k = Some (Inr ?res)"
      using assms kv(1) b by (simp add: solve_vote_def Let_def)
    moreover have "coeffs ?res \<noteq> []" using ok b by (simp add: entry_ok_def)
    moreover have "pick_best (fold count_vote (sub_vote_keys points k combos) [])
           = Some (toStringFrac (last (coeffs ?res)))"
      using w kv(2) ok b ec by (simp add: entry_ok_def)
    ultimately show "\<exists>res. solve_vote points k = Some (Inr res) \<and> coeffs res \<noteq> [] \<and>
         pick_best (fold count_vote (sub_vote_keys points k combos) [])
           = Some (toStringFrac (last (coeffs res)))"
      by blast
  }
qed

lemma vote_all_skip:
  assumes "vote_key points combo = None"
  shows "vote_all points (cs1 @ combo # cs2) = vote_all points (cs1 @ cs2)"
  using assms by (simp add: vote_all_def vote_step_None)

lemma sub_vote_all_skip:
  assumes "sub_vote_key points k combo = None"
  shows "sub_vote_all points k (cs1 @ combo # cs2) = sub_vote_all points k (cs1 @ cs2)"
  using assms by (simp add: sub_vote_all_def sub_vote_step_None)

lemma valid_combo_vote_key:
  assumes "valid_combo (length points) k combo"
  shows "vote_key points combo = None \<longleftrightarrow>
         (\<forall>c. constantViaLagrange (map (\<lambda>i. points ! i) combo) \<noteq> Inr c)"
proof -
  from assms have "\<not> (\<exists>i\<in>set combo. length points \<le> i)"
    by (auto simp: valid_combo_def)
  then show ?thesis
    by (cases "constantViaLagrange (map (\<lambda>i. points ! i) combo)") (simp_all add: vote_key_def)
qed

lemma sub_vote_key_None:
  "sub_vote_key points k combo = None \<longleftrightarrow>
     (\<forall>cs. solveForIndices points k combo = Inr cs \<longrightarrow> cs = [])"
  by (cases "solveForIndices points k combo") (simp_all add: sub_vote_key_def)

section \<open>Facts about the command line of Problem.js\<close>

text \<open>Printing an integer loses nothing: \<open>parseBigInt\<close> reads it back.\<close>

lemma of_char_digit_char: "d < 10 \<Longrightarrow> of_char (digit_char d) = 48 + d"
  by (simp add: digit_char_def)

lemma digit_char_not_minus: "d < 10 \<Longrightarrow> digit_char d \<noteq> CHR ''-''"
proof
  assume d: "d < 10" and "digit_char d = CHR ''-''"
  then have "(of_char (digit_char d) :: nat) = of_char CHR ''-''" by simp
  with d show False by (simp add: of_char_digit_char)
qed

lemma parse_nat_snoc: "parse_nat (s @ [c]) = 10 * parse_nat s + (of_char c - 48)"
  by (simp add: parse_nat_def)

lemma parse_nat_toString: "parse_nat (nat_toString v) = v"
proof (induction v rule: nat_toString.induct)
  case (1 v)
  show ?case
  proof (cases "v < 10")
    case True
    then show ?thesis
      by (subst nat_toString.simps) (simp add: parse_nat_def of_char_digit_char)
  next
    case False
    have "v mod 10 < 10" by simp
    then have "(of_char (digit_char (v mod 10)) :: nat) - 48 = v mod 10"
      by (simp add: of_char_digit_char)
    with False 1 show ?thesis
      by (subst nat_toString.simps) (simp add: parse_nat_snoc)
  qed
qed

lemma nat_toString_hd: "nat_toString v \<noteq> [] \<and> hd (nat_toString v) \<noteq> CHR ''-''"
proof (induction v rule: nat_toString.induct)
  case (1 v)
  show ?case
  proof (cases "v < 10")
    case True
    then show ?thesis
      by (subst (1 2) nat_toString.simps) (simp add: digit_char_not_minus)
  next
    case False
    with 1 show ?thesis
      by (subst (1 2) nat_toString.simps) simp
  qed
qed

lemma parseBigInt_toStringBI: "parseBigInt (toStringBI v) = v"
proof (cases "v < 0")
  case True
  then show ?thesis by (simp add: parseBigInt_def toStringBI_def parse_nat_toString)
next
  case False
  obtain c cs where s: "nat_toString (nat v) = c # cs" "c \<noteq> CHR ''-''"
    using nat_toString_hd[of "nat v"] by (cases "nat_toString (nat v)") auto
  have "parse_nat (c # cs) = nat v" using parse_nat_toString[of "nat v"] s(1) by simp
  with False s show ?thesis by (simp add: parseBigInt_def toStringBI_def)
qed

lemma toStringBI_inject: "toStringBI a = toStringBI b \<longleftrightarrow> a = b"
  by (metis parseBigInt_toStringBI)

text \<open>The dedupe loop keeps the first occurrence of every key.\<close>

lemma fold_dedupe_step:
  "fold dedupe_step keys ({}, []) = (toStringBI ` set keys, rev (remdups (rev keys)))"
proof (induction keys rule: rev_induct)
  case Nil
  then show ?case by simp
next
  case (snoc v keys)
  have "toStringBI v \<in> toStringBI ` set keys \<longleftrightarrow> v \<in> set keys"
    by (auto simp: toStringBI_inject)
  with snoc show ?case by (auto simp: dedupe_step_def Let_def)
qed

lemma dedupe_remdups: "dedupe keys = rev (remdups (rev keys))"
  by (simp add: dedupe_def fold_dedupe_step)

lemma dedupe_distinct: "distinct (dedupe keys)"
  by (simp add: dedupe_remdups)

lemma dedupe_set: "set (dedupe keys) = set keys"
  by (simp add: dedupe_remdups)

lemma dedupe_length: "\<not> distinct keys \<Longrightarrow> length (dedupe keys) < length keys"
proof -
  assume nd: "\<not> distinct keys"
  then have "\<not> distinct (rev keys)" by simp
  then have "remdups (rev keys) \<noteq> rev keys" by (simp add: remdups_id_iff_distinct)
  then have "length (remdups (rev keys)) \<noteq> length (rev keys)"
    using length_remdups_eq[of "rev keys"] by blast
  moreover have "length (remdups (rev keys)) \<le> length (rev keys)" by (rule length_remdups_leq)
  ultimately show ?thesis by (simp add: dedupe_remdups)
qed

text \<open>The index map sends a printed x to the index of a point with that x.\<close>

lemma index_map_snoc:
  "index_map (points @ [p]) = map_set (index_map points) (toStringBI (px p)) (length points)"
  by (simp add: index_map_def)

lemma index_map_Some:
  "map_of (index_map points) key = Some idx \<Longrightarrow>
     idx < length points \<and> toStringBI (px (points ! idx)) = key"
proof (induction points arbitrary: idx rule: rev_induct)
  case Nil
  then show ?case by (simp add: index_map_def)
next
  case (snoc p points)
  show ?case
  proof (cases "toStringBI (px p) = key")
    case True
    with snoc.prems have "idx = length points"
      by (simp add: index_map_snoc map_of_map_set)
    with True show ?thesis by simp
  next
    case False
    with snoc.prems have "map_of (index_map points) key = Some idx"
      by (simp add: index_map_snoc map_of_map_set)
    from snoc.IH[OF this] show ?thesis by (simp add: nth_append)
  qed
qed

lemma map_err_Inr:
  "map_err f xs = Inr ys \<Longrightarrow> list_all2 (\<lambda>x y. f x = Inr y) xs ys"
proof (induction xs arbitrary: ys)
  case Nil
  then show ?case by simp
next
  case (Cons x xs)
  then show ?case
    by (auto simp: bind_err_def split: sum.splits)
qed

lemma pick_subset_xs:
  assumes "pick_subset points k chosenXs = Inr sub_pts"
  shows "map px sub_pts = chosenXs"
proof -
  let ?f = "\<lambda>x. case map_of (index_map points) (toStringBI x) of
                   None \<Rightarrow> Inl UnknownKey | Some idx \<Rightarrow> Inr (points ! idx)"
  from assms have "map_err ?f chosenXs = Inr sub_pts"
    by (simp add: pick_subset_def split: if_splits)
  then have l2: "list_all2 (\<lambda>x y. ?f x = Inr y) chosenXs sub_pts" by (rule map_err_Inr)
  have pxy: "px y = x" if "?f x = Inr y" for x y
  proof -
    from that obtain idx where i: "map_of (index_map points) (toStringBI x) = Some idx"
      "y = points ! idx"
      by (auto split: option.splits)
    from index_map_Some[OF i(1)] i(2) show ?thesis by (simp add: toStringBI_inject)
  qed
  have "list_all2 (\<lambda>x y. px y = x) chosenXs sub_pts"
    by (rule list_all2_mono[OF l2]) (rule pxy)
  then show ?thesis
    by (induction chosenXs sub_pts rule: list_all2_induct) auto
qed

section \<open>The Lagrange computation does not depend on the order of the points\<close>

text \<open>The value of the Lagrange sum, written over the set of the points.\<close>

definition lagrange_set :: "point set \<Rightarrow> real" where
  "lagrange_set S =
     (\<Sum>p\<in>S. of_int (py p) * of_int (\<Prod>q\<in>S - {p}. - px q) / of_int (\<Prod>q\<in>S - {p}. px p - px q))"

lemma distinct_map_px: "distinct (map px ps) \<Longrightarrow> distinct ps"
  by (simp add: distinct_map)

lemma nth_image_Diff:
  assumes "distinct ps" "i < length ps"
  shows "(\<lambda>j. ps ! j) ` ({..<length ps} - {i}) = set ps - {ps ! i}"
proof -
  have inj: "inj_on (\<lambda>j. ps ! j) {..<length ps}"
    using assms(1) by (simp add: inj_on_nth)
  have "(\<lambda>j. ps ! j) ` ({..<length ps} - {i}) = (\<lambda>j. ps ! j) ` {..<length ps} - (\<lambda>j. ps ! j) ` {i}"
    by (rule inj_on_image_set_diff[OF inj]) (use assms(2) in auto)
  also have "(\<lambda>j. ps ! j) ` {..<length ps} = set ps"
    by (auto simp: in_set_conv_nth)
  finally show ?thesis by simp
qed

lemma prod_nth_Diff:
  fixes g :: "point \<Rightarrow> int"
  assumes "distinct ps" "i < length ps"
  shows "(\<Prod>j\<in>{..<length ps} - {i}. g (ps ! j)) = (\<Prod>q\<in>set ps - {ps ! i}. g q)"
proof -
  have inj: "inj_on (\<lambda>j. ps ! j) ({..<length ps} - {i})"
    using assms(1) by (auto simp: inj_on_def nth_eq_iff_index_eq)
  have "(\<Prod>q\<in>(\<lambda>j. ps ! j) ` ({..<length ps} - {i}). g q) = (\<Prod>j\<in>{..<length ps} - {i}. g (ps ! j))"
    using prod.reindex[OF inj, of g] by simp
  then show ?thesis by (simp add: nth_image_Diff[OF assms])
qed

lemma lagrange_value_set:
  assumes "distinct (map px ps)"
  shows "lagrange_value ps = lagrange_set (set ps)"
proof -
  have d: "distinct ps" by (rule distinct_map_px[OF assms])
  let ?T = "\<lambda>p. real_of_int (py p) * of_int (\<Prod>q\<in>set ps - {p}. - px q)
                 / of_int (\<Prod>q\<in>set ps - {p}. px p - px q)"
  have tm: "lag_term (map px ps) (map py ps) i = ?T (ps ! i)" if i: "i < length ps" for i
  proof -
    have "lag_num (map px ps) i = (\<Prod>j\<in>{..<length ps} - {i}. - px (ps ! j))"
      unfolding lag_num_def by (rule prod.cong) (use i in auto)
    also have "\<dots> = (\<Prod>q\<in>set ps - {ps ! i}. - px q)"
      by (rule prod_nth_Diff[OF d i])
    finally have n: "lag_num (map px ps) i = (\<Prod>q\<in>set ps - {ps ! i}. - px q)" .
    have "lag_den (map px ps) i = (\<Prod>j\<in>{..<length ps} - {i}. px (ps ! i) - px (ps ! j))"
      unfolding lag_den_def by (rule prod.cong) (use i in auto)
    also have "\<dots> = (\<Prod>q\<in>set ps - {ps ! i}. px (ps ! i) - px q)"
      by (rule prod_nth_Diff[OF d i])
    finally have dn: "lag_den (map px ps) i = (\<Prod>q\<in>set ps - {ps ! i}. px (ps ! i) - px q)" .
    show ?thesis using i by (simp add: lag_term_def n dn)
  qed
  have "lagrange_value ps = (\<Sum>i<length ps. ?T (ps ! i))"
    unfolding lagrange_value_def by (rule sum.cong) (simp_all add: tm)
  also have "\<dots> = (\<Sum>p\<leftarrow>ps. ?T p)"
    by (simp add: sum_list_sum_nth atLeast0LessThan)
  also have "\<dots> = (\<Sum>p\<in>set ps. ?T p)"
    using d by (simp add: sum_list_distinct_conv_sum_set)
  finally show ?thesis by (simp add: lagrange_set_def)
qed

lemma constantViaLagrange_mset:
  assumes "mset ps = mset ps'"
  shows "constantViaLagrange ps = constantViaLagrange ps'"
proof -
  from assms have "mset (map px ps) = mset (map px ps')" by simp
  then have d: "distinct (map px ps) \<longleftrightarrow> distinct (map px ps')"
    by (rule mset_eq_imp_distinct_iff)
  from assms have s: "set ps = set ps'" by (rule mset_eq_setD)
  show ?thesis
  proof (cases "distinct (map px ps)")
    case True
    with d s have "lagrange_value ps = lagrange_value ps'"
      by (simp add: lagrange_value_set)
    with True d show ?thesis by (simp add: constantViaLagrange_char)
  next
    case False
    with d show ?thesis by (simp add: constantViaLagrange_char)
  qed
qed

section \<open>Voting on a permuted point sequence\<close>

text \<open>Equal multisets of list elements are related by a permutation of the indices.\<close>

lemma mset_eq_index_perm:
  assumes "mset ys = mset xs"
  shows "\<exists>f. bij_betw f {..<length xs} {..<length xs} \<and> ys = map (\<lambda>i. xs ! f i) [0..<length xs]"
  using assms
proof (induction ys arbitrary: xs)
  case Nil
  then have "xs = []" by simp
  then show ?case by (intro exI[of _ id]) (simp add: bij_betw_def)
next
  case (Cons y ys)
  then have "y \<in> set xs" by (metis list.set_intros(1) mset_eq_setD)
  then obtain as bs where xs: "xs = as @ y # bs" by (meson split_list)
  with Cons.prems have "mset ys = mset (as @ bs)" by simp
  from Cons.IH[OF this] obtain g where g: "bij_betw g {..<length (as @ bs)} {..<length (as @ bs)}"
    and ys: "ys = map (\<lambda>i. (as @ bs) ! g i) [0..<length (as @ bs)]"
    by blast
  let ?m = "length (as @ bs)"
  let ?a = "length as"
  define up where "up j = (if j < ?a then j else Suc j)" for j
  define f where "f i = (case i of 0 \<Rightarrow> ?a | Suc i' \<Rightarrow> up (g i'))" for i
  have len: "length xs = Suc ?m" using xs by simp
  have up_nth: "xs ! up j = (as @ bs) ! j" for j
    using xs by (auto simp: up_def nth_append Suc_diff_le)
  have up_ne: "up j \<noteq> ?a" for j by (simp add: up_def)
  have up_inj: "up j = up j' \<Longrightarrow> j = j'" for j j'
    by (auto simp: up_def split: if_splits)
  have up_lt: "j < ?m \<Longrightarrow> up j < Suc ?m" for j by (simp add: up_def)
  have up_surj: "\<exists>j<?m. up j = t" if "t < Suc ?m" "t \<noteq> ?a" for t
  proof (cases "t < ?a")
    case True
    then have "t < ?m" "up t = t" by (simp_all add: up_def)
    then show ?thesis by blast
  next
    case False
    with that have "?a < t" by simp
    then obtain t' where t': "t = Suc t'" "?a \<le> t'" by (cases t) auto
    with that have "t' < ?m" "up t' = t" by (simp_all add: up_def)
    then show ?thesis by blast
  qed
  have g_lt: "i < ?m \<Longrightarrow> g i < ?m" for i
    using g by (auto simp: bij_betw_def)
  have g_inj: "i < ?m \<Longrightarrow> i' < ?m \<Longrightarrow> g i = g i' \<Longrightarrow> i = i'" for i i'
    using g by (auto simp: bij_betw_def inj_on_def)
  have g_surj: "j < ?m \<Longrightarrow> \<exists>i<?m. g i = j" for j
    using g by (auto simp: bij_betw_def image_iff) (metis imageE lessThan_iff)
  have "bij_betw f {..<Suc ?m} {..<Suc ?m}"
    unfolding bij_betw_def
  proof
    show "inj_on f {..<Suc ?m}"
    proof (rule inj_onI)
      fix i i' assume ii: "i \<in> {..<Suc ?m}" "i' \<in> {..<Suc ?m}" "f i = f i'"
      show "i = i'"
      proof (cases i)
        case 0
        with ii(3) up_ne show ?thesis by (cases i') (auto simp: f_def)
      next
        case (Suc j)
        show ?thesis
        proof (cases i')
          case 0
          with Suc ii(3) up_ne show ?thesis by (auto simp: f_def)
        next
          case (Suc j')
          with \<open>i = Suc j\<close> ii have "up (g j) = up (g j')" "j < ?m" "j' < ?m"
            by (auto simp: f_def)
          then have "j = j'" using up_inj g_inj by blast
          with Suc \<open>i = Suc j\<close> show ?thesis by simp
        qed
      qed
    qed
    show "f ` {..<Suc ?m} = {..<Suc ?m}"
    proof (intro set_eqI iffI)
      fix t assume "t \<in> f ` {..<Suc ?m}"
      then obtain i where i: "i < Suc ?m" "t = f i" by auto
      show "t \<in> {..<Suc ?m}"
      proof (cases i)
        case 0
        with i show ?thesis by (simp add: f_def)
      next
        case (Suc j)
        with i have "j < ?m" by simp
        from up_lt[OF g_lt[OF this]] Suc i show ?thesis by (simp add: f_def)
      qed
    next
      fix t assume t: "t \<in> {..<Suc ?m}"
      show "t \<in> f ` {..<Suc ?m}"
      proof (cases "t = ?a")
        case True
        then have "t = f 0" by (simp add: f_def)
        then show ?thesis by blast
      next
        case False
        with t up_surj obtain j where j: "j < ?m" "up j = t" by auto
        from g_surj[OF j(1)] obtain i where i: "i < ?m" "g i = j" by blast
        with j have "t = f (Suc i)" "Suc i \<in> {..<Suc ?m}" by (simp_all add: f_def)
        then show ?thesis by blast
      qed
    qed
  qed
  moreover have "y # ys = map (\<lambda>i. xs ! f i) [0..<Suc ?m]"
  proof -
    have "map (\<lambda>i. xs ! f i) [0..<Suc ?m] = xs ! f 0 # map (\<lambda>i. xs ! f (Suc i)) [0..<?m]"
      by (simp add: upt_rec[of 0] map_Suc_upt[symmetric] del: upt_Suc)
    also have "xs ! f 0 = y" using xs by (simp add: f_def)
    also have "map (\<lambda>i. xs ! f (Suc i)) [0..<?m] = ys"
      using ys by (simp add: f_def up_nth)
    finally show ?thesis by simp
  qed
  ultimately show ?case using len by auto
qed

lemma mset_map_filter:
  "mset (List.map_filter g xs) = image_mset the (filter_mset (\<lambda>r. r \<noteq> None) (image_mset g (mset xs)))"
  by (induction xs) (auto simp: map_filter_simps split: option.splits)

lemma valid_combo_image:
  assumes bij: "bij_betw f {..<n} {..<n}" and c: "valid_combo n k c"
  shows "valid_combo n k (sorted_list_of_set (f ` set c))"
    and "mset (sorted_list_of_set (f ` set c)) = image_mset f (mset c)"
proof -
  from c have len: "length c = k" and s: "sorted_wrt (<) c" and lt: "set c \<subseteq> {..<n}"
    by (auto simp: valid_combo_def)
  from s have d: "distinct c" by (simp add: strict_sorted_iff)
  have inj: "inj_on f (set c)"
    using bij lt by (meson bij_betw_def inj_on_subset)
  have fin: "finite (f ` set c)" by simp
  have sub: "f ` set c \<subseteq> {..<n}"
    using bij lt by (auto simp: bij_betw_def)
  have "card (f ` set c) = k" using inj d len by (simp add: card_image distinct_card)
  then have "length (sorted_list_of_set (f ` set c)) = k" by simp
  moreover have "sorted_wrt (<) (sorted_list_of_set (f ` set c))" by simp
  moreover have "\<forall>v\<in>set (sorted_list_of_set (f ` set c)). v < n" using sub fin by auto
  ultimately show "valid_combo n k (sorted_list_of_set (f ` set c))"
    by (simp add: valid_combo_def)
  have "mset (sorted_list_of_set (f ` set c)) = mset_set (f ` set c)"
    by (metis mset_sorted_list_of_multiset sorted_list_of_mset_set)
  also have "\<dots> = image_mset f (mset_set (set c))"
    using inj by (simp add: image_mset_mset_set)
  also have "mset_set (set c) = mset c" using d by (rule mset_set_set)
  finally show "mset (sorted_list_of_set (f ` set c)) = image_mset f (mset c)" .
qed

lemma valid_combo_image_inj:
  assumes bij: "bij_betw f {..<n} {..<n}"
  shows "inj_on (\<lambda>c. sorted_list_of_set (f ` set c)) {c. valid_combo n k c}"
proof (rule inj_onI)
  fix c c' assume c: "c \<in> {c. valid_combo n k c}" and c': "c' \<in> {c. valid_combo n k c}"
    and eq: "sorted_list_of_set (f ` set c) = sorted_list_of_set (f ` set c')"
  from c c' have sub: "set c \<subseteq> {..<n}" "set c' \<subseteq> {..<n}"
    and sd: "sorted c" "distinct c" "sorted c'" "distinct c'"
    by (auto simp: valid_combo_def strict_sorted_iff)
  have "set (sorted_list_of_set (f ` set c)) = set (sorted_list_of_set (f ` set c'))"
    using eq by (rule arg_cong)
  then have "f ` set c = f ` set c'" by simp
  moreover have "inj_on f {..<n}" using bij by (simp add: bij_betw_def)
  ultimately have "set c = set c'" using sub by (simp add: inj_on_image_eq_iff)
  then show "c = c'" using sd by (simp add: sorted_distinct_set_unique)
qed

lemma vote_key_perm:
  assumes bij: "bij_betw f {..<length points} {..<length points}"
    and p': "points' = map (\<lambda>i. points ! f i) [0..<length points]"
    and c: "valid_combo (length points) k c"
  shows "vote_key points' c = vote_key points (sorted_list_of_set (f ` set c))"
proof -
  let ?n = "length points"
  let ?c' = "sorted_list_of_set (f ` set c)"
  have v': "valid_combo ?n k ?c'" and m: "mset ?c' = image_mset f (mset c)"
    using valid_combo_image[OF bij c] by simp_all
  have r: "\<not> (\<exists>i\<in>set c. length points' \<le> i)"
    using c p' by (auto simp: valid_combo_def)
  have r': "\<not> (\<exists>i\<in>set ?c'. length points \<le> i)"
    using v' unfolding valid_combo_def by (meson not_le)
  have eqm: "map (\<lambda>i. points' ! i) c = map (\<lambda>i. points ! f i) c"
    using c p' by (auto simp: valid_combo_def)
  have "mset (map (\<lambda>i. points ! f i) c) = image_mset (\<lambda>i. points ! i) (image_mset f (mset c))"
    by (simp add: image_mset.compositionality comp_def)
  then have "mset (map (\<lambda>i. points' ! i) c) = image_mset (\<lambda>i. points ! i) (image_mset f (mset c))"
    by (simp only: eqm)
  also have "\<dots> = mset (map (\<lambda>i. points ! i) ?c')"
    using m by (metis mset_map)
  finally have "constantViaLagrange (map (\<lambda>i. points' ! i) c)
      = constantViaLagrange (map (\<lambda>i. points ! i) ?c')"
    by (rule constantViaLagrange_mset)
  then show ?thesis using r r' by (simp only: vote_key_def if_False)
qed

lemma vote_keys_perm:
  assumes bij: "bij_betw f {..<length points} {..<length points}"
    and p': "points' = map (\<lambda>i. points ! f i) [0..<length points]"
    and c: "set combos = {c. valid_combo (length points) k c}" "distinct combos"
  shows "mset (vote_keys points' combos) = mset (vote_keys points combos)"
proof -
  let ?n = "length points"
  let ?V = "{c. valid_combo ?n k c}"
  let ?phi = "\<lambda>c. sorted_list_of_set (f ` set c)"
  have fin: "finite ?V" by (rule finite_valid_combo)
  have inj: "inj_on ?phi ?V" by (rule valid_combo_image_inj[OF bij])
  have "?phi ` ?V \<subseteq> ?V" using valid_combo_image(1)[OF bij] by blast
  then have img: "?phi ` ?V = ?V" using fin inj by (simp add: endo_inj_surj)
  have mc: "mset combos = mset_set ?V"
    using c by (metis mset_set_set)
  have "image_mset (vote_key points') (mset_set ?V)
      = image_mset (\<lambda>c. vote_key points (?phi c)) (mset_set ?V)"
    by (rule image_mset_cong) (use fin vote_key_perm[OF bij p'] in simp)
  also have "\<dots> = image_mset (vote_key points) (image_mset ?phi (mset_set ?V))"
    by (simp add: image_mset.compositionality comp_def)
  also have "image_mset ?phi (mset_set ?V) = mset_set (?phi ` ?V)"
    using inj by (rule image_mset_mset_set)
  finally have "image_mset (vote_key points') (mset combos) = image_mset (vote_key points) (mset combos)"
    using img mc by simp
  then show ?thesis by (simp add: vote_keys_def mset_map_filter)
qed

lemma count_list_mset: "count_list xs x = count (mset xs) x"
  by (induction xs) auto

section \<open>Facts about the Gaussian elimination\<close>

text \<open>
  A well-formed augmented matrix has \<open>k\<close> rows of \<open>k + 1\<close> normalized fractions;
  \<open>rv M r c\<close> is the number in row \<open>r\<close> and column \<open>c\<close>.
\<close>

definition wfM :: "nat \<Rightarrow> Frac list list \<Rightarrow> bool" where
  "wfM k M \<longleftrightarrow>
     length M = k \<and> (\<forall>r<k. length (M ! r) = Suc k \<and> (\<forall>c\<le>k. frac_inv (M ! r ! c)))"

definition rv :: "Frac list list \<Rightarrow> nat \<Rightarrow> nat \<Rightarrow> real" where
  "rv M r c = val (M ! r ! c)"

lemma wfM_entry:
  assumes "wfM k M" "r < k" "c \<le> k"
  shows "rd M r c = Inr (M ! r ! c)" and "frac_inv (M ! r ! c)"
  using assms by (simp_all add: wfM_def rd_def)

lemma wfM_wr:
  assumes "wfM k M" "r < k" "c \<le> k" "frac_inv v"
  shows "wfM k (wr M r c v)"
    and "\<And>r' c'. r' < k \<Longrightarrow> c' \<le> k \<Longrightarrow>
           rv (wr M r c v) r' c' = (if r' = r \<and> c' = c then val v else rv M r' c')"
proof -
  from assms have r: "r < length M" and l: "length (M ! r) = Suc k"
    by (simp_all add: wfM_def)
  have nth: "wr M r c v ! r' ! c' = (if r' = r \<and> c' = c then v else M ! r' ! c')"
    if "r' < k" "c' \<le> k" for r' c'
    using that r l assms(1) by (auto simp: wr_def wfM_def nth_list_update)
  have len: "length (wr M r c v ! r') = Suc k" if "r' < k" for r'
    using that r l assms(1) by (auto simp: wr_def wfM_def nth_list_update)
  have "length (wr M r c v) = k" using assms(1) by (simp add: wr_def wfM_def)
  moreover have "frac_inv (wr M r c v ! r' ! c')" if "r' < k" "c' \<le> k" for r' c'
    using nth[OF that] that assms by (auto simp: wfM_def)
  ultimately show "wfM k (wr M r c v)" using len by (simp add: wfM_def)
  fix r' c' assume "r' < k" "c' \<le> k"
  then show "rv (wr M r c v) r' c' = (if r' = r \<and> c' = c then val v else rv M r' c')"
    using nth by (simp add: rv_def)
qed

lemma frac_n_zero_val: "frac_inv a \<Longrightarrow> frac_n a = 0 \<longleftrightarrow> val a = 0"
  by (auto simp: val_def frac_inv_def)

text \<open>The pivot search.\<close>

lemma find_pivot_spec:
  assumes "wfM k M" "col \<le> k" "\<forall>r\<in>set rs. r < k"
  shows "\<exists>p. find_pivot M col rs piv = Inr p \<and>
           ((p \<in> set rs \<and> frac_n (M ! p ! col) \<noteq> 0) \<or>
            (p = piv \<and> (\<forall>r\<in>set rs. frac_n (M ! r ! col) = 0)))"
  using assms(3)
proof (induction rs)
  case Nil
  then show ?case by simp
next
  case (Cons r rs)
  then have r: "r < k" by simp
  show ?case
  proof (cases "frac_n (M ! r ! col) \<noteq> 0")
    case True
    then show ?thesis using wfM_entry(1)[OF assms(1) r assms(2)]
      by (simp add: bind_err_def)
  next
    case False
    with Cons show ?thesis using wfM_entry(1)[OF assms(1) r assms(2)]
      by (auto simp: bind_err_def)
  qed
qed

text \<open>Dividing the pivot row by the pivot.\<close>

lemma normalize_row_spec:
  assumes "wfM k M" "col < k" "frac_inv pv" "frac_n pv \<noteq> 0"
    and "distinct cs" "\<forall>c\<in>set cs. c \<le> k"
  shows "\<exists>M'. normalize_row M col pv cs = Inr M' \<and> wfM k M' \<and>
           (\<forall>r<k. \<forall>c\<le>k. rv M' r c =
              (if r = col \<and> c \<in> set cs then rv M col c / val pv else rv M r c))"
  using assms(1,5,6)
proof (induction cs arbitrary: M)
  case Nil
  then show ?case by simp
next
  case (Cons c cs)
  then have c: "c \<le> k" and cn: "c \<notin> set cs" by simp_all
  have rdc: "rd M col c = Inr (M ! col ! c)" and fi: "frac_inv (M ! col ! c)"
    using wfM_entry[OF Cons.prems(1) assms(2) c] by simp_all
  obtain q where q: "div_frac (M ! col ! c) pv = Inr q" "frac_inv q"
      "val q = val (M ! col ! c) / val pv"
    using div_frac_ok[of "M ! col ! c" pv] fi assms(3,4) by (auto dest: frac_inv_den_nz)
  let ?M1 = "wr M col c q"
  have wf1: "wfM k ?M1" by (rule wfM_wr(1)[OF Cons.prems(1) assms(2) c q(2)])
  have rv1: "rv ?M1 r' c' = (if r' = col \<and> c' = c then val q else rv M r' c')"
    if "r' < k" "c' \<le> k" for r' c'
    by (rule wfM_wr(2)[OF Cons.prems(1) assms(2) c q(2) that])
  from Cons.IH[OF wf1] Cons.prems obtain M' where M': "normalize_row ?M1 col pv cs = Inr M'"
    "wfM k M'"
    "\<forall>r<k. \<forall>c\<le>k. rv M' r c = (if r = col \<and> c \<in> set cs then rv ?M1 col c / val pv else rv ?M1 r c)"
    by auto
  have "normalize_row M col pv (c # cs) = Inr M'"
    using rdc q(1) M'(1) by (simp add: bind_err_def)
  moreover have "rv M' r' c' = (if r' = col \<and> c' \<in> set (c # cs) then rv M col c' / val pv else rv M r' c')"
    if "r' < k" "c' \<le> k" for r' c'
    using M'(3) that rv1 cn q(3) assms(2) by (auto simp: rv_def)
  ultimately show ?case using M'(2) by blast
qed

text \<open>Subtracting a multiple of the pivot row from a row below.\<close>

lemma eliminate_row_spec:
  assumes "wfM k M" "col < k" "r < k" "r \<noteq> col" "frac_inv factor"
    and "distinct cs" "\<forall>c\<in>set cs. c \<le> k"
  shows "\<exists>M'. eliminate_row M col r factor cs = Inr M' \<and> wfM k M' \<and>
           (\<forall>r'<k. \<forall>c\<le>k. rv M' r' c =
              (if r' = r \<and> c \<in> set cs then rv M r c - val factor * rv M col c else rv M r' c))"
  using assms(1,6,7)
proof (induction cs arbitrary: M)
  case Nil
  then show ?case by simp
next
  case (Cons c cs)
  then have c: "c \<le> k" and cn: "c \<notin> set cs" by simp_all
  have rda: "rd M r c = Inr (M ! r ! c)" and fa: "frac_inv (M ! r ! c)"
    using wfM_entry[OF Cons.prems(1) assms(3) c] by simp_all
  have rdp: "rd M col c = Inr (M ! col ! c)" and fp: "frac_inv (M ! col ! c)"
    using wfM_entry[OF Cons.prems(1) assms(2) c] by simp_all
  obtain t where t: "mul factor (M ! col ! c) = Inr t" "frac_inv t"
      "val t = val factor * val (M ! col ! c)"
    using mul_ok[of factor "M ! col ! c"] fp assms(5) by (auto dest: frac_inv_den_nz)
  obtain v where v: "sub (M ! r ! c) t = Inr v" "frac_inv v" "val v = val (M ! r ! c) - val t"
    using sub_ok[of "M ! r ! c" t] fa t(2) by (auto dest: frac_inv_den_nz)
  let ?M1 = "wr M r c v"
  have wf1: "wfM k ?M1" by (rule wfM_wr(1)[OF Cons.prems(1) assms(3) c v(2)])
  have rv1: "rv ?M1 r' c' = (if r' = r \<and> c' = c then val v else rv M r' c')"
    if "r' < k" "c' \<le> k" for r' c'
    by (rule wfM_wr(2)[OF Cons.prems(1) assms(3) c v(2) that])
  from Cons.IH[OF wf1] Cons.prems obtain M' where M': "eliminate_row ?M1 col r factor cs = Inr M'"
    "wfM k M'"
    "\<forall>r'<k. \<forall>c\<le>k. rv M' r' c =
        (if r' = r \<and> c \<in> set cs then rv ?M1 r c - val factor * rv ?M1 col c else rv ?M1 r' c)"
    by auto
  have "eliminate_row M col r factor (c # cs) = Inr M'"
    using rda rdp t(1) v(1) M'(1) by (simp add: bind_err_def)
  moreover have "rv M' r' c' =
      (if r' = r \<and> c' \<in> set (c # cs) then rv M r c' - val factor * rv M col c' else rv M r' c')"
    if "r' < k" "c' \<le> k" for r' c'
    using M'(3) that rv1 cn v(3) t(3) assms(2,3,4) by (auto simp: rv_def)
  ultimately show ?case using M'(2) by blast
qed

text \<open>Clearing the pivot column in the rows below the pivot row.\<close>

lemma eliminate_below_spec:
  assumes "wfM k M" "col < k" "distinct rs" "\<forall>r\<in>set rs. col < r \<and> r < k"
  shows "\<exists>M'. eliminate_below M k col rs = Inr M' \<and> wfM k M' \<and>
           (\<forall>r<k. \<forall>c\<le>k. rv M' r c =
              (if r \<in> set rs \<and> col \<le> c then rv M r c - rv M r col * rv M col c else rv M r c))"
  using assms(1,3,4)
proof (induction rs arbitrary: M)
  case Nil
  then show ?case by simp
next
  case (Cons r rs)
  then have r: "r < k" "col < r" and rn: "r \<notin> set rs" by simp_all
  have colk: "col \<le> k" using assms(2) by simp
  have rdf: "rd M r col = Inr (M ! r ! col)" and ff: "frac_inv (M ! r ! col)"
    using wfM_entry[OF Cons.prems(1) r(1) colk] by simp_all
  show ?case
  proof (cases "frac_n (M ! r ! col) = 0")
    case True
    then have z: "rv M r col = 0" using ff by (simp add: rv_def frac_n_zero_val)
    from Cons.IH[OF Cons.prems(1)] Cons.prems obtain M' where M': "eliminate_below M k col rs = Inr M'"
      "wfM k M'"
      "\<forall>r<k. \<forall>c\<le>k. rv M' r c =
          (if r \<in> set rs \<and> col \<le> c then rv M r c - rv M r col * rv M col c else rv M r c)"
      by auto
    have "eliminate_below M k col (r # rs) = Inr M'"
      using rdf True M'(1) by (simp add: bind_err_def)
    moreover have "rv M' r' c =
          (if r' \<in> set (r # rs) \<and> col \<le> c then rv M r' c - rv M r' col * rv M col c else rv M r' c)"
      if "r' < k" "c \<le> k" for r' c
      using M'(3) that z by auto
    ultimately show ?thesis using M'(2) by blast
  next
    case False
    have rc: "r \<noteq> col" using r(2) by simp
    have dcs: "distinct [col..<Suc k]" and scs: "\<forall>c\<in>set [col..<Suc k]. c \<le> k" by auto
    from eliminate_row_spec[OF Cons.prems(1) assms(2) r(1) rc ff dcs scs]
    obtain M1 where M1: "eliminate_row M col r (M ! r ! col) [col..<Suc k] = Inr M1" "wfM k M1"
      "\<forall>r'<k. \<forall>c\<le>k. rv M1 r' c =
        (if r' = r \<and> c \<in> set [col..<Suc k] then rv M r c - val (M ! r ! col) * rv M col c
         else rv M r' c)"
      by blast
    from Cons.IH[OF M1(2)] Cons.prems obtain M' where M': "eliminate_below M1 k col rs = Inr M'"
      "wfM k M'"
      "\<forall>r<k. \<forall>c\<le>k. rv M' r c =
          (if r \<in> set rs \<and> col \<le> c then rv M1 r c - rv M1 r col * rv M1 col c else rv M1 r c)"
      by auto
    have "eliminate_below M k col (r # rs) = Inr M'"
      using rdf False M1(1) M'(1) by (simp add: bind_err_def)
    moreover have "rv M' r' c =
          (if r' \<in> set (r # rs) \<and> col \<le> c then rv M r' c - rv M r' col * rv M col c else rv M r' c)"
      if rr: "r' < k" and cc: "c \<le> k" for r' c
    proof (cases "r' \<in> set rs")
      case True
      then have ne: "r' \<noteq> r" using rn by auto
      have a: "rv M1 r' c = rv M r' c" using M1(3) rr cc ne by simp
      have b: "rv M1 r' col = rv M r' col" using M1(3) rr colk ne by simp
      have c: "rv M1 col c = rv M col c" using M1(3) assms(2) cc rc by simp
      show ?thesis using M'(3) rr cc True a b c by simp
    next
      case False
      then have "rv M' r' c = rv M1 r' c" using M'(3) rr cc by simp
      also have "\<dots> = (if r' = r \<and> col \<le> c then rv M r c - rv M r col * rv M col c else rv M r' c)"
        using M1(3) rr cc by (auto simp: rv_def)
      finally show ?thesis using False by auto
    qed
    ultimately show ?thesis using M'(2) by blast
  qed
qed

text \<open>Swapping the pivot row into place.\<close>

lemma swap_rows_spec:
  assumes "wfM k M" "col < k" "piv < k"
  defines "M1 \<equiv> (if piv \<noteq> col then M[col := M ! piv, piv := M ! col] else M)"
  shows "wfM k M1"
    and "\<And>r c. r < k \<Longrightarrow> rv M1 r c = rv M (if r = col then piv else if r = piv then col else r) c"
proof -
  have nth: "M1 ! r = M ! (if r = col then piv else if r = piv then col else r)" if "r < k" for r
    using that assms(1,2,3) by (auto simp: M1_def wfM_def nth_list_update)
  have "length M1 = k" using assms(1) by (simp add: M1_def wfM_def)
  then show "wfM k M1" using nth assms(1,2,3) by (auto simp: wfM_def)
  fix r c assume "r < k"
  then show "rv M1 r c = rv M (if r = col then piv else if r = piv then col else r) c"
    using nth by (simp add: rv_def)
qed

text \<open>One column of the forward elimination, on the numbers of the matrix.\<close>

definition gswap :: "nat \<Rightarrow> nat \<Rightarrow> (nat \<Rightarrow> nat \<Rightarrow> real) \<Rightarrow> nat \<Rightarrow> nat \<Rightarrow> real" where
  "gswap col piv A = (\<lambda>r c. A (if r = col then piv else if r = piv then col else r) c)"

definition gnorm :: "nat \<Rightarrow> (nat \<Rightarrow> nat \<Rightarrow> real) \<Rightarrow> nat \<Rightarrow> nat \<Rightarrow> real" where
  "gnorm col A = (\<lambda>r c. if r = col \<and> col \<le> c then A r c / A col col else A r c)"

definition gelim :: "nat \<Rightarrow> (nat \<Rightarrow> nat \<Rightarrow> real) \<Rightarrow> nat \<Rightarrow> nat \<Rightarrow> real" where
  "gelim col A = (\<lambda>r c. if col < r \<and> col \<le> c then A r c - A r col * A col c else A r c)"

definition gstep :: "nat \<Rightarrow> nat \<Rightarrow> (nat \<Rightarrow> nat \<Rightarrow> real) \<Rightarrow> nat \<Rightarrow> nat \<Rightarrow> real" where
  "gstep col piv A = gelim col (gnorm col (gswap col piv A))"

lemma forward_step:
  assumes wf: "wfM k M" and col: "col < k"
  shows "((\<forall>r. col \<le> r \<and> r < k \<longrightarrow> rv M r col = 0) \<and>
            forward_elim M k (col # cols) = Inl SingularSystem) \<or>
         (\<exists>piv M3. col \<le> piv \<and> piv < k \<and> rv M piv col \<noteq> 0 \<and> wfM k M3 \<and>
            (\<forall>r<k. \<forall>c\<le>k. rv M3 r c = gstep col piv (rv M) r c) \<and>
            forward_elim M k (col # cols) = forward_elim M3 k cols)"
proof -
  have colk: "col \<le> k" using col by simp
  have rs: "\<forall>r\<in>set [col..<k]. r < k" by simp
  from find_pivot_spec[OF wf colk rs, of col] obtain p where p: "find_pivot M col [col..<k] col = Inr p"
    "(p \<in> set [col..<k] \<and> frac_n (M ! p ! col) \<noteq> 0) \<or>
     (p = col \<and> (\<forall>r\<in>set [col..<k]. frac_n (M ! r ! col) = 0))"
    by blast
  from p(2) col have pk: "p < k" "col \<le> p" by auto
  have rdp: "rd M p col = Inr (M ! p ! col)" and fp: "frac_inv (M ! p ! col)"
    using wfM_entry[OF wf pk(1) colk] by simp_all
  show ?thesis
  proof (cases "frac_n (M ! p ! col) = 0")
    case True
    with p(2) have z: "\<forall>r\<in>set [col..<k]. frac_n (M ! r ! col) = 0" by auto
    have "rv M r col = 0" if "col \<le> r \<and> r < k" for r
    proof -
      from that z have "frac_n (M ! r ! col) = 0" by simp
      moreover have "frac_inv (M ! r ! col)" using wfM_entry(2)[OF wf _ colk] that by simp
      ultimately show ?thesis by (simp add: rv_def frac_n_zero_val)
    qed
    moreover have "forward_elim M k (col # cols) = Inl SingularSystem"
      using p(1) rdp True by (simp add: bind_err_def)
    ultimately show ?thesis by blast
  next
    case False
    then have pnz: "rv M p col \<noteq> 0" using fp by (simp add: rv_def frac_n_zero_val)
    define M1 where "M1 = (if p \<noteq> col then M[col := M ! p, p := M ! col] else M)"
    have wf1: "wfM k M1"
      and rv1: "\<And>r c. r < k \<Longrightarrow> rv M1 r c = rv M (if r = col then p else if r = p then col else r) c"
      unfolding M1_def using swap_rows_spec[OF wf col pk(1)] by simp_all
    have rdv: "rd M1 col col = Inr (M1 ! col ! col)" and fv: "frac_inv (M1 ! col ! col)"
      using wfM_entry[OF wf1 col colk] by simp_all
    have pv: "val (M1 ! col ! col) = rv M p col" using rv1[OF col, of col] by (simp add: rv_def)
    then have pvnz: "frac_n (M1 ! col ! col) \<noteq> 0" using pnz fv by (simp add: frac_n_zero_val)
    have dcs: "distinct [col..<Suc k]" and scs: "\<forall>c\<in>set [col..<Suc k]. c \<le> k" by auto
    from normalize_row_spec[OF wf1 col fv pvnz dcs scs]
    obtain M2 where M2: "normalize_row M1 col (M1 ! col ! col) [col..<Suc k] = Inr M2" "wfM k M2"
      "\<forall>r<k. \<forall>c\<le>k. rv M2 r c =
          (if r = col \<and> c \<in> set [col..<Suc k] then rv M1 col c / val (M1 ! col ! col) else rv M1 r c)"
      by blast
    have drs: "distinct [Suc col..<k]" and srs: "\<forall>r\<in>set [Suc col..<k]. col < r \<and> r < k" by simp_all
    from eliminate_below_spec[OF M2(2) col drs srs]
    obtain M3 where M3: "eliminate_below M2 k col [Suc col..<k] = Inr M3" "wfM k M3"
      "\<forall>r<k. \<forall>c\<le>k. rv M3 r c =
          (if r \<in> set [Suc col..<k] \<and> col \<le> c then rv M2 r c - rv M2 r col * rv M2 col c
           else rv M2 r c)"
      by blast
    have fe: "forward_elim M k (col # cols) = forward_elim M3 k cols"
      using p(1) rdp False rdv M2(1) M3(1) by (simp add: bind_err_def M1_def Let_def)
    have r2: "rv M2 r c = (if r = col \<and> col \<le> c then rv M1 r c / rv M1 col col else rv M1 r c)"
      if "r < k" "c \<le> k" for r c
      using M2(3) that by (auto simp: rv_def)
    have "rv M3 r c = gstep col p (rv M) r c" if rr: "r < k" and cc: "c \<le> k" for r c
    proof -
      have "rv M3 r c = (if col < r \<and> col \<le> c then rv M2 r c - rv M2 r col * rv M2 col c
           else rv M2 r c)"
        using M3(3) rr cc by auto
      then show ?thesis
        using r2[OF rr cc] r2[OF rr colk] r2[OF col cc] r2[OF col colk] rv1[OF rr] rv1[OF col]
        by (simp add: gstep_def gswap_def gnorm_def gelim_def)
    qed
    with pk pnz M3(2) fe show ?thesis by blast
  qed
qed

text \<open>
  The linear form of row \<open>r\<close> at a vector \<open>v\<close> with \<open>k + 1\<close> components, the vectors that
  every row sends to zero, and the echelon shape reached before column \<open>col\<close>: ones on the
  diagonal and zeros below it.
\<close>

definition lin :: "nat \<Rightarrow> (nat \<Rightarrow> nat \<Rightarrow> real) \<Rightarrow> (nat \<Rightarrow> real) \<Rightarrow> nat \<Rightarrow> real" where
  "lin k A v r = (\<Sum>c\<le>k. A r c * v c)"

definition ker :: "nat \<Rightarrow> (nat \<Rightarrow> nat \<Rightarrow> real) \<Rightarrow> (nat \<Rightarrow> real) \<Rightarrow> bool" where
  "ker k A v \<longleftrightarrow> (\<forall>r<k. lin k A v r = 0)"

definition ech :: "nat \<Rightarrow> nat \<Rightarrow> (nat \<Rightarrow> nat \<Rightarrow> real) \<Rightarrow> bool" where
  "ech k col A \<longleftrightarrow> (\<forall>j<col. A j j = 1 \<and> (\<forall>r<k. j < r \<longrightarrow> A r j = 0))"

lemma lin_cong: "(\<And>c. c \<le> k \<Longrightarrow> A r c = B r c) \<Longrightarrow> lin k A v r = lin k B v r"
  unfolding lin_def by (rule sum.cong) simp_all

lemma ker_cong:
  assumes "\<And>r c. r < k \<Longrightarrow> c \<le> k \<Longrightarrow> A r c = B r c"
  shows "ker k A v \<longleftrightarrow> ker k B v"
proof -
  have "lin k A v r = lin k B v r" if "r < k" for r
    by (rule lin_cong) (simp add: assms that)
  then show ?thesis by (simp add: ker_def)
qed

lemma ech_cong:
  assumes "\<And>r c. r < k \<Longrightarrow> c \<le> k \<Longrightarrow> A r c = B r c" "col \<le> k"
  shows "ech k col A \<longleftrightarrow> ech k col B"
proof -
  have "A j j = B j j \<and> (\<forall>r<k. j < r \<longrightarrow> A r j = B r j)" if "j < col" for j
    using that assms by simp
  then show ?thesis unfolding ech_def by (metis (no_types, lifting))
qed

lemma gswap_lin:
  "lin k (gswap col piv A) v r = lin k A v (if r = col then piv else if r = piv then col else r)"
  by (simp add: lin_def gswap_def)

lemma gswap_ker:
  assumes "col < k" "piv < k"
  shows "ker k (gswap col piv A) v \<longleftrightarrow> ker k A v"
proof
  assume h: "ker k (gswap col piv A) v"
  show "ker k A v"
    unfolding ker_def
  proof (intro allI impI)
    fix r assume r: "r < k"
    let ?s = "if r = col then piv else if r = piv then col else r"
    have "?s < k" using r assms by simp
    with h have "lin k (gswap col piv A) v ?s = 0" by (simp add: ker_def)
    then show "lin k A v r = 0" by (simp add: gswap_lin split: if_splits)
  qed
next
  assume h: "ker k A v"
  show "ker k (gswap col piv A) v"
    unfolding ker_def
  proof (intro allI impI)
    fix r assume r: "r < k"
    let ?s = "if r = col then piv else if r = piv then col else r"
    have "?s < k" using r assms by simp
    with h have "lin k A v ?s = 0" by (simp add: ker_def)
    then show "lin k (gswap col piv A) v r = 0" by (simp add: gswap_lin)
  qed
qed

text \<open>Left of column \<open>col\<close> the rows from \<open>col\<close> on hold zeros.\<close>

definition zleft :: "nat \<Rightarrow> nat \<Rightarrow> (nat \<Rightarrow> nat \<Rightarrow> real) \<Rightarrow> bool" where
  "zleft k col A \<longleftrightarrow> (\<forall>r<k. \<forall>c<col. col \<le> r \<longrightarrow> A r c = 0)"

lemma ech_zleft: "ech k col A \<Longrightarrow> zleft k col A"
  by (auto simp: ech_def zleft_def)

lemma gswap_zleft:
  assumes "zleft k col A" "col \<le> piv" "piv < k"
  shows "zleft k col (gswap col piv A)"
  using assms by (auto simp: zleft_def gswap_def)

lemma gnorm_lin:
  assumes z: "zleft k col A" and col: "col < k"
  shows "lin k (gnorm col A) v r = (if r = col then lin k A v col / A col col else lin k A v r)"
proof (cases "r = col")
  case False
  then show ?thesis by (simp add: lin_def gnorm_def)
next
  case True
  have "gnorm col A col c = A col c / A col col" if "c \<le> k" for c
  proof (cases "col \<le> c")
    case True
    then show ?thesis by (simp add: gnorm_def)
  next
    case False
    then have "A col c = 0" using z col by (simp add: zleft_def)
    with False show ?thesis by (simp add: gnorm_def)
  qed
  then have "lin k (gnorm col A) v col = (\<Sum>c\<le>k. A col c / A col col * v c)"
    unfolding lin_def by (intro sum.cong) simp_all
  also have "\<dots> = lin k A v col / A col col"
    by (simp add: lin_def sum_divide_distrib)
  finally show ?thesis using True by simp
qed

lemma gnorm_ker:
  assumes z: "zleft k col A" and col: "col < k" and p: "A col col \<noteq> 0"
  shows "ker k (gnorm col A) v \<longleftrightarrow> ker k A v"
  using p by (auto simp: ker_def gnorm_lin[OF z col])

lemma gnorm_zleft: "zleft k col A \<Longrightarrow> zleft k col (gnorm col A)"
  by (auto simp: zleft_def gnorm_def)

lemma gelim_lin:
  assumes z: "zleft k col A" and col: "col < k"
  shows "lin k (gelim col A) v r =
         (if col < r then lin k A v r - A r col * lin k A v col else lin k A v r)"
proof (cases "col < r")
  case False
  then show ?thesis by (simp add: lin_def gelim_def)
next
  case True
  have "gelim col A r c = A r c - A r col * A col c" if "c \<le> k" for c
  proof (cases "col \<le> c")
    case True
    with \<open>col < r\<close> show ?thesis by (simp add: gelim_def)
  next
    case False
    then have "A col c = 0" using z col by (simp add: zleft_def)
    with False show ?thesis by (simp add: gelim_def)
  qed
  then have "lin k (gelim col A) v r = (\<Sum>c\<le>k. (A r c - A r col * A col c) * v c)"
    unfolding lin_def by (intro sum.cong) simp_all
  also have "\<dots> = lin k A v r - A r col * lin k A v col"
    by (simp add: lin_def left_diff_distrib sum_subtractf sum_distrib_left mult.assoc)
  finally show ?thesis using True by simp
qed

lemma gelim_ker:
  assumes z: "zleft k col A" and col: "col < k"
  shows "ker k (gelim col A) v \<longleftrightarrow> ker k A v"
proof
  assume h: "ker k A v"
  then have "lin k A v col = 0" using col by (simp add: ker_def)
  with h show "ker k (gelim col A) v" by (simp add: ker_def gelim_lin[OF z col])
next
  assume h: "ker k (gelim col A) v"
  then have "lin k (gelim col A) v col = 0" using col by (simp add: ker_def)
  then have c0: "lin k A v col = 0" by (simp add: gelim_lin[OF z col])
  show "ker k A v"
    unfolding ker_def
  proof (intro allI impI)
    fix r assume "r < k"
    with h have "lin k (gelim col A) v r = 0" by (simp add: ker_def)
    then show "lin k A v r = 0" using c0 by (simp add: gelim_lin[OF z col] split: if_splits)
  qed
qed

lemma gstep_ker:
  assumes e: "ech k col A" and piv: "col \<le> piv" "piv < k" and col: "col < k" and p: "A piv col \<noteq> 0"
  shows "ker k (gstep col piv A) v \<longleftrightarrow> ker k A v"
proof -
  have z1: "zleft k col (gswap col piv A)"
    by (rule gswap_zleft[OF ech_zleft[OF e] piv])
  have z2: "zleft k col (gnorm col (gswap col piv A))" by (rule gnorm_zleft[OF z1])
  have p1: "gswap col piv A col col \<noteq> 0" using p by (simp add: gswap_def)
  show ?thesis
    unfolding gstep_def
    by (simp add: gelim_ker[OF z2 col] gnorm_ker[OF z1 col p1] gswap_ker[OF col piv(2)])
qed

lemma gstep_ech:
  assumes e: "ech k col A" and piv: "col \<le> piv" "piv < k" and col: "col < k" and p: "A piv col \<noteq> 0"
  shows "ech k (Suc col) (gstep col piv A)"
  unfolding ech_def
proof (intro allI impI conjI)
  fix j assume j: "j < Suc col"
  show "gstep col piv A j j = 1"
  proof (cases "j = col")
    case True
    with p show ?thesis by (simp add: gstep_def gelim_def gnorm_def gswap_def)
  next
    case False
    with j have jc: "j < col" by simp
    then have "j \<noteq> piv" using piv by simp
    with jc e show ?thesis by (simp add: gstep_def gelim_def gnorm_def gswap_def ech_def)
  qed
next
  fix j r assume j: "j < Suc col" and r: "r < k" "j < r"
  show "gstep col piv A r j = 0"
  proof (cases "j = col")
    case True
    with r p show ?thesis by (simp add: gstep_def gelim_def gnorm_def gswap_def)
  next
    case False
    with j have jc: "j < col" by simp
    let ?s = "if r = col then piv else if r = piv then col else r"
    have "?s < k" "j < ?s" using r piv col jc by auto
    then have "A ?s j = 0" using e jc by (simp add: ech_def)
    with jc show ?thesis by (simp add: gstep_def gelim_def gnorm_def gswap_def)
  qed
qed

text \<open>
  Without a pivot in column \<open>col\<close> some vector with right-hand component zero and with
  component \<open>col\<close> equal to one is sent to zero by every row.
\<close>

lemma no_pivot_kernel:
  assumes e: "ech k col A" and col: "col < k"
    and np: "\<forall>r. col \<le> r \<and> r < k \<longrightarrow> A r col = 0"
  shows "\<exists>v. ker k A v \<and> v k = 0 \<and> v col = 1"
proof -
  have build: "\<exists>v. v col = 1 \<and> (\<forall>c. col < c \<longrightarrow> v c = 0) \<and>
                  (\<forall>j. col - d \<le> j \<and> j < col \<longrightarrow> lin k A v j = 0)" for d
  proof (induction d)
    case 0
    have "(\<lambda>c. if c = col then 1 else 0 :: real) col = 1" by simp
    then show ?case by (intro exI[of _ "\<lambda>c. if c = col then 1 else 0"]) simp
  next
    case (Suc d)
    then obtain v where v: "v col = 1" "\<forall>c. col < c \<longrightarrow> v c = 0"
      "\<forall>j. col - d \<le> j \<and> j < col \<longrightarrow> lin k A v j = 0"
      by blast
    show ?case
    proof (cases "d < col")
      case False
      then have "col - Suc d = col - d" by simp
      with v show ?thesis by auto
    next
      case True
      define m where "m = col - Suc d"
      have m: "m < col" "col - d = Suc m" using True by (simp_all add: m_def)
      have mk: "m \<le> k" using m col by simp
      define s where "s = (\<Sum>c\<in>{..k} - {m}. A m c * v c)"
      define v' where "v' = v(m := - s)"
      have v'c: "v' c = v c" if "c \<noteq> m" for c using that by (simp add: v'_def)
      have "lin k A v' m = A m m * v' m + (\<Sum>c\<in>{..k} - {m}. A m c * v' c)"
        unfolding lin_def using mk by (simp add: sum.remove[of _ m])
      also have "(\<Sum>c\<in>{..k} - {m}. A m c * v' c) = s"
        unfolding s_def by (rule sum.cong) (simp_all add: v'c)
      also have "A m m = 1" using e m(1) by (simp add: ech_def)
      finally have "lin k A v' m = 1 * v' m + s" .
      moreover have "v' m = - s" by (simp add: v'_def)
      ultimately have lm: "lin k A v' m = 0" by simp
      have lj: "lin k A v' j = 0" if j: "Suc m \<le> j" "j < col" for j
      proof -
        have "A j m = 0" using e m(1) j col by (simp add: ech_def)
        then have eqc: "A j c * v' c = A j c * v c" for c
          by (cases "c = m") (simp_all add: v'c)
        have "lin k A v' j = lin k A v j"
          unfolding lin_def by (rule sum.cong) (simp_all only: eqc)
        with v(3) j m(2) show ?thesis by simp
      qed
      have "lin k A v' j = 0" if "col - Suc d \<le> j \<and> j < col" for j
      proof (cases "j = m")
        case True
        with lm show ?thesis by simp
      next
        case False
        with that have "Suc m \<le> j" "j < col" by (simp_all add: m_def)
        then show ?thesis by (rule lj)
      qed
      moreover have "v' col = 1" using v(1) m(1) by (simp add: v'_def)
      moreover have "\<forall>c. col < c \<longrightarrow> v' c = 0" using v(2) m(1) by (simp add: v'_def)
      ultimately show ?thesis by blast
    qed
  qed
  from build[of col] obtain v where v: "v col = 1" "\<forall>c. col < c \<longrightarrow> v c = 0"
    "\<forall>j. j < col \<longrightarrow> lin k A v j = 0"
    by auto
  have "lin k A v r = 0" if r: "r < k" for r
  proof (cases "r < col")
    case True
    with v(3) show ?thesis by simp
  next
    case False
    have tz: "A r c * v c = 0" if "c \<le> k" for c
    proof -
      consider "c < col" | "c = col" | "col < c" by linarith
      then show ?thesis
      proof cases
        case 1
        then have "A r c = 0" using e r False by (simp add: ech_def)
        then show ?thesis by simp
      next
        case 2
        with np r False show ?thesis by simp
      next
        case 3
        with v(2) show ?thesis by simp
      qed
    qed
    have "(\<Sum>c\<le>k. A r c * v c) = (\<Sum>c\<le>k. 0)"
      by (rule sum.cong) (simp_all only: tz atMost_iff)
    then show ?thesis by (simp add: lin_def)
  qed
  then have "ker k A v" by (simp add: ker_def)
  moreover have "v k = 0" using v(2) col by simp
  ultimately show ?thesis using v(1) by blast
qed

text \<open>
  A matrix is nonsingular when only the zero vector with right-hand component zero is sent
  to zero by every row.
\<close>

definition nonsing :: "nat \<Rightarrow> (nat \<Rightarrow> nat \<Rightarrow> real) \<Rightarrow> bool" where
  "nonsing k A \<longleftrightarrow> (\<forall>v. ker k A v \<and> v k = 0 \<longrightarrow> (\<forall>c<k. v c = 0))"

lemma forward_elim_spec:
  assumes "wfM k M" "ech k col (rv M)" "col \<le> k" "nonsing k (rv M)"
  shows "\<exists>M'. forward_elim M k [col..<k] = Inr M' \<and> wfM k M' \<and> ech k k (rv M') \<and>
              (\<forall>v. ker k (rv M') v \<longleftrightarrow> ker k (rv M) v)"
  using assms
proof (induction "k - col" arbitrary: col M)
  case 0
  then have "col = k" by simp
  with 0 show ?case by simp
next
  case (Suc d)
  then have col: "col < k" by simp
  then have upt: "[col..<k] = col # [Suc col..<k]" by (rule upt_conv_Cons)
  note wf = Suc.prems(1) and e = Suc.prems(2) and ns = Suc.prems(4)
  from forward_step[OF wf col, of "[Suc col..<k]"] show ?case
  proof
    assume "(\<forall>r. col \<le> r \<and> r < k \<longrightarrow> rv M r col = 0) \<and>
            forward_elim M k (col # [Suc col..<k]) = Inl SingularSystem"
    then have np: "\<forall>r. col \<le> r \<and> r < k \<longrightarrow> rv M r col = 0" by simp
    from no_pivot_kernel[OF e col np] obtain v where "ker k (rv M) v" "v k = 0" "v col = 1"
      by blast
    with ns col show ?thesis by (auto simp: nonsing_def)
  next
    assume "\<exists>piv M3. col \<le> piv \<and> piv < k \<and> rv M piv col \<noteq> 0 \<and> wfM k M3 \<and>
            (\<forall>r<k. \<forall>c\<le>k. rv M3 r c = gstep col piv (rv M) r c) \<and>
            forward_elim M k (col # [Suc col..<k]) = forward_elim M3 k [Suc col..<k]"
    then obtain piv M3 where piv: "col \<le> piv" "piv < k" "rv M piv col \<noteq> 0"
      and wf3: "wfM k M3"
      and rv3: "\<And>r c. r < k \<Longrightarrow> c \<le> k \<Longrightarrow> rv M3 r c = gstep col piv (rv M) r c"
      and fe: "forward_elim M k (col # [Suc col..<k]) = forward_elim M3 k [Suc col..<k]"
      by blast
    have e3: "ech k (Suc col) (rv M3)"
      using ech_cong[of k "rv M3" "gstep col piv (rv M)" "Suc col"] rv3 col
        gstep_ech[OF e piv(1,2) col piv(3)]
      by simp
    have k3: "ker k (rv M3) v \<longleftrightarrow> ker k (rv M) v" for v
      using ker_cong[of k "rv M3" "gstep col piv (rv M)" v] rv3
        gstep_ker[OF e piv(1,2) col piv(3), of v]
      by simp
    have ns3: "nonsing k (rv M3)" using ns k3 by (simp add: nonsing_def)
    have d: "d = k - Suc col" using Suc.hyps(2) by simp
    have sk: "Suc col \<le> k" using col by simp
    from Suc.hyps(1)[OF d wf3 e3 sk ns3] obtain M' where M': "forward_elim M3 k [Suc col..<k] = Inr M'"
      "wfM k M'" "ech k k (rv M')" "\<forall>v. ker k (rv M') v \<longleftrightarrow> ker k (rv M3) v"
      by blast
    have "forward_elim M k [col..<k] = Inr M'" using upt fe M'(1) by simp
    moreover have "\<forall>v. ker k (rv M') v \<longleftrightarrow> ker k (rv M) v" using M'(4) k3 by simp
    ultimately show ?thesis using M'(2,3) by blast
  qed
qed

text \<open>Back substitution.\<close>

lemma back_sum_spec:
  assumes "wfM k M" "r < k" "\<forall>c<k. frac_inv (x ! c)" "frac_inv acc" "\<forall>c\<in>set cs. c < k"
  shows "\<exists>s. back_sum M x r cs acc = Inr s \<and> frac_inv s \<and>
             val s = val acc + (\<Sum>c\<leftarrow>cs. rv M r c * val (x ! c))"
  using assms(4,5)
proof (induction cs arbitrary: acc)
  case Nil
  then show ?case by simp
next
  case (Cons c cs)
  then have c: "c < k" by simp
  then have ck: "c \<le> k" by simp
  have rda: "rd M r c = Inr (M ! r ! c)" and fa: "frac_inv (M ! r ! c)"
    using wfM_entry[OF assms(1,2) ck] by simp_all
  have fx: "frac_inv (x ! c)" using assms(3) c by simp
  obtain t where t: "mul (M ! r ! c) (x ! c) = Inr t" "frac_inv t"
      "val t = val (M ! r ! c) * val (x ! c)"
    using mul_ok[of "M ! r ! c" "x ! c"] fa fx by (auto dest: frac_inv_den_nz)
  obtain acc' where a: "add acc t = Inr acc'" "frac_inv acc'" "val acc' = val acc + val t"
    using add_ok[of acc t] Cons.prems(1) t(2) by (auto dest: frac_inv_den_nz)
  from Cons.IH[OF a(2)] Cons.prems(2) obtain s where s: "back_sum M x r cs acc' = Inr s"
    "frac_inv s" "val s = val acc' + (\<Sum>c\<leftarrow>cs. rv M r c * val (x ! c))"
    by auto
  have "back_sum M x r (c # cs) acc = Inr s"
    using rda t(1) a(1) s(1) by (simp add: bind_err_def)
  moreover have "val s = val acc + (\<Sum>c\<leftarrow>c # cs. rv M r c * val (x ! c))"
    using s(3) a(3) t(3) by (simp add: rv_def)
  ultimately show ?case using s(2) by blast
qed

lemma back_subst_spec:
  assumes "wfM k M" "length x = k" "\<forall>c<k. frac_inv (x ! c)" "m \<le> k"
  shows "\<exists>x'. back_subst M k x (rev [0..<m]) = Inr x' \<and> length x' = k \<and>
           (\<forall>c<k. frac_inv (x' ! c)) \<and> (\<forall>j. m \<le> j \<and> j < k \<longrightarrow> x' ! j = x ! j) \<and>
           (\<forall>r<m. val (x' ! r) = rv M r k - (\<Sum>c\<leftarrow>[Suc r..<k]. rv M r c * val (x' ! c)))"
  using assms(2,3,4)
proof (induction m arbitrary: x)
  case 0
  then show ?case by simp
next
  case (Suc m)
  then have m: "m < k" by simp
  have z: "frac_inv \<lparr>frac_n = 0, frac_d = 1\<rparr>" by simp
  have cs: "\<forall>c\<in>set [Suc m..<k]. c < k" by simp
  from back_sum_spec[OF assms(1) m Suc.prems(2) z cs]
  obtain s where s: "back_sum M x m [Suc m..<k] \<lparr>frac_n = 0, frac_d = 1\<rparr> = Inr s" "frac_inv s"
    "val s = (\<Sum>c\<leftarrow>[Suc m..<k]. rv M m c * val (x ! c))"
    by auto
  have rdb: "rd M m k = Inr (M ! m ! k)" and fb: "frac_inv (M ! m ! k)"
    using wfM_entry[OF assms(1) m, of k] by simp_all
  obtain v where v: "sub (M ! m ! k) s = Inr v" "frac_inv v" "val v = val (M ! m ! k) - val s"
    using sub_ok[of "M ! m ! k" s] fb s(2) by (auto dest: frac_inv_den_nz)
  let ?x1 = "x[m := v]"
  have l1: "length ?x1 = k" using Suc.prems(1) by simp
  have f1: "\<forall>c<k. frac_inv (?x1 ! c)"
    using Suc.prems(1,2) v(2) m by (auto simp: nth_list_update)
  have mk: "m \<le> k" using m by simp
  from Suc.IH[OF l1 f1 mk] obtain x' where x': "back_subst M k ?x1 (rev [0..<m]) = Inr x'"
    "length x' = k" "\<forall>c<k. frac_inv (x' ! c)" "\<forall>j. m \<le> j \<and> j < k \<longrightarrow> x' ! j = ?x1 ! j"
    "\<forall>r<m. val (x' ! r) = rv M r k - (\<Sum>c\<leftarrow>[Suc r..<k]. rv M r c * val (x' ! c))"
    by blast
  have run: "back_subst M k x (rev [0..<Suc m]) = Inr x'"
    using s(1) rdb v(1) x'(1) by (simp add: bind_err_def fromBI_eq)
  have keep: "x' ! j = x ! j" if "Suc m \<le> j \<and> j < k" for j
    using x'(4) that by (simp add: nth_list_update)
  have xm: "x' ! m = v" using x'(4) m Suc.prems(1) by simp
  have "(\<Sum>c\<leftarrow>[Suc m..<k]. rv M m c * val (x' ! c)) = (\<Sum>c\<leftarrow>[Suc m..<k]. rv M m c * val (x ! c))"
    by (rule arg_cong[where f = sum_list]) (simp add: keep)
  then have eqm: "val (x' ! m) = rv M m k - (\<Sum>c\<leftarrow>[Suc m..<k]. rv M m c * val (x' ! c))"
    using xm v(3) s(3) by (simp add: rv_def)
  have "val (x' ! r) = rv M r k - (\<Sum>c\<leftarrow>[Suc r..<k]. rv M r c * val (x' ! c))" if "r < Suc m" for r
    using that x'(5) eqm by (cases "r = m") auto
  with run x'(2,3) keep show ?case by blast
qed

lemma back_solution:
  assumes e: "ech k k A"
    and x: "\<forall>r<k. xs r = A r k - (\<Sum>c\<leftarrow>[Suc r..<k]. A r c * xs c)"
  shows "ker k A (\<lambda>c. if c < k then xs c else - 1)"
  unfolding ker_def
proof (intro allI impI)
  fix r assume r: "r < k"
  let ?v = "\<lambda>c. if c < k then xs c else - 1 :: real"
  have "lin k A ?v r = (\<Sum>c<k. A r c * xs c) - A r k"
    by (simp add: lin_def lessThan_Suc_atMost[symmetric])
  also have "(\<Sum>c<k. A r c * xs c) = (\<Sum>c\<in>{..<r}. A r c * xs c) + (\<Sum>c\<in>{r..<k}. A r c * xs c)"
  proof -
    have "(\<Sum>c\<in>{0..<r}. A r c * xs c) + (\<Sum>c\<in>{r..<k}. A r c * xs c) = (\<Sum>c\<in>{0..<k}. A r c * xs c)"
      by (rule sum.atLeastLessThan_concat) (use r in simp_all)
    then show ?thesis by (simp only: atLeast0LessThan)
  qed
  also have "(\<Sum>c\<in>{..<r}. A r c * xs c) = 0"
  proof (rule sum.neutral, rule ballI)
    fix c assume "c \<in> {..<r}"
    then have "A r c = 0" using e r by (simp add: ech_def)
    then show "A r c * xs c = 0" by simp
  qed
  also have "(\<Sum>c\<in>{r..<k}. A r c * xs c) = A r r * xs r + (\<Sum>c\<in>{Suc r..<k}. A r c * xs c)"
    using r by (simp add: sum.atLeast_Suc_lessThan)
  also have "A r r = 1" using e r by (simp add: ech_def)
  also have "(\<Sum>c\<in>{Suc r..<k}. A r c * xs c) = (\<Sum>c\<leftarrow>[Suc r..<k]. A r c * xs c)"
    by (simp add: interv_sum_list_conv_sum_set_nat)
  finally show "lin k A ?v r = 0" using x r by simp
qed

lemma map_err_ok: "(\<And>a. a \<in> set as \<Longrightarrow> f a = Inr (g a)) \<Longrightarrow> map_err f as = Inr (map g as)"
  by (induction as) (simp_all add: bind_err_def)

text \<open>The linear system as a whole.\<close>

lemma solveFracSystem_spec:
  assumes la: "length A = k" and lb: "length b = k"
    and wf: "wfM k (map (\<lambda>(row, bi). row @ [bi]) (zip A b))"
    and ns: "nonsing k (rv (map (\<lambda>(row, bi). row @ [bi]) (zip A b)))"
  shows "\<exists>x. solveFracSystem A b = Inr x \<and> length x = k \<and> (\<forall>c<k. frac_inv (x ! c)) \<and>
           ker k (rv (map (\<lambda>(row, bi). row @ [bi]) (zip A b))) (\<lambda>c. if c < k then val (x ! c) else - 1)"
proof -
  let ?M = "map (\<lambda>(row, bi). row @ [bi]) (zip A b)"
  have e0: "ech k 0 (rv ?M)" by (simp add: ech_def)
  from forward_elim_spec[OF wf e0 _ ns] obtain M' where M': "forward_elim ?M k [0..<k] = Inr M'"
    "wfM k M'" "ech k k (rv M')" "\<forall>v. ker k (rv M') v \<longleftrightarrow> ker k (rv ?M) v"
    by auto
  let ?x0 = "map (\<lambda>i. \<lparr>frac_n = 0, frac_d = 1\<rparr>) [0..<k]"
  have x0: "map_err (\<lambda>i. fromBI 0) [0..<k] = Inr ?x0"
    by (rule map_err_ok) (simp add: fromBI_eq)
  have l0: "length ?x0 = k" by simp
  have f0: "\<forall>c<k. frac_inv (?x0 ! c)" by simp
  from back_subst_spec[OF M'(2) l0 f0, of k] obtain x where x: "back_subst M' k ?x0 (rev [0..<k]) = Inr x"
    "length x = k" "\<forall>c<k. frac_inv (x ! c)"
    "\<forall>r<k. val (x ! r) = rv M' r k - (\<Sum>c\<leftarrow>[Suc r..<k]. rv M' r c * val (x ! c))"
    by auto
  have "ker k (rv M') (\<lambda>c. if c < k then val (x ! c) else - 1)"
    by (rule back_solution[OF M'(3)]) (use x(4) in simp)
  then have "ker k (rv ?M) (\<lambda>c. if c < k then val (x ! c) else - 1)"
    using M'(4) by simp
  moreover have "solveFracSystem A b = Inr x"
    using M'(1) x0 x(1) la by (simp add: solveFracSystem_def Let_def bind_err_def)
  ultimately show ?thesis using x(2,3) by blast
qed

text \<open>The rows of powers.\<close>

lemma powBI_loop_pow: "powBI_loop r b e = r * b ^ e"
proof (induction r b e rule: powBI_loop.induct)
  case (1 r b e)
  show ?case
  proof (cases "0 < e")
    case False
    then show ?thesis by (subst powBI_loop.simps) simp
  next
    case True
    have sq: "(b * b) ^ (e div 2) = b ^ (2 * (e div 2))"
      by (simp add: power_mult power2_eq_square)
    have unf: "powBI_loop r b e = powBI_loop (if odd e then r * b else r) (b * b) (e div 2)"
      by (subst powBI_loop.simps) (use True in simp)
    have ih: "powBI_loop (if odd e then r * b else r) (b * b) (e div 2)
        = (if odd e then r * b else r) * (b * b) ^ (e div 2)"
      using 1 True by simp
    show ?thesis
    proof (cases "odd e")
      case o: True
      then have "e = Suc (2 * (e div 2))" by (metis odd_two_times_div_two_succ Suc_eq_plus1)
      then have "b ^ e = b * b ^ (2 * (e div 2))" by (metis power_Suc)
      then have eq: "r * b * (b * b) ^ (e div 2) = r * b ^ e" by (simp only: sq mult.assoc)
      have "powBI_loop r b e = r * b * (b * b) ^ (e div 2)" using unf ih o by simp
      then show ?thesis by (simp only: eq)
    next
      case ev: False
      then have "2 * (e div 2) = e" by simp
      then have eq: "(b * b) ^ (e div 2) = b ^ e" by (simp only: sq)
      have "powBI_loop r b e = r * (b * b) ^ (e div 2)" using unf ih ev by simp
      then show ?thesis by (simp only: eq)
    qed
  qed
qed

lemma powBI_pow: "powBI x e = x ^ e"
  by (simp add: powBI_def powBI_loop_pow)

lemma map_nat_upto: "map nat [1..int n] = [1..<Suc n]"
proof (induction n)
  case 0
  then show ?case by simp
next
  case (Suc n)
  have "[1..int (Suc n)] = [1..int n] @ [int (Suc n)]"
    using upto_rec2[of 1 "int (Suc n)"] by simp
  with Suc show ?case by simp
qed

text \<open>Row \<open>x\<close> of the matrix of powers for \<open>k\<close> unknowns.\<close>

definition vrow :: "int \<Rightarrow> nat \<Rightarrow> Frac list" where
  "vrow x k = map (\<lambda>c. \<lparr>frac_n = x ^ (k - 1 - c), frac_d = 1\<rparr>) [0..<k]"

lemma rev_powers:
  "map F (rev [1..<Suc n]) @ [F 0] = map (\<lambda>c. F (n - c)) [0..<Suc n]"
proof (induction n)
  case 0
  then show ?case by simp
next
  case (Suc n)
  have "map (\<lambda>c. F (Suc n - c)) [0..<Suc (Suc n)]
      = F (Suc n) # map (\<lambda>c. F (Suc n - Suc c)) [0..<Suc n]"
    by (simp add: upt_rec[of 0] map_Suc_upt[symmetric] del: upt_Suc)
  also have "\<dots> = F (Suc n) # map (\<lambda>c. F (n - c)) [0..<Suc n]" by simp
  also have "\<dots> = F (Suc n) # (map F (rev [1..<Suc n]) @ [F 0])" using Suc by simp
  also have "\<dots> = map F (rev [1..<Suc (Suc n)]) @ [F 0]" by simp
  finally show ?case by simp
qed

lemma vandermondeRow_vrow:
  assumes "1 \<le> k"
  shows "vandermondeRow x (int k - 1) = Inr (vrow x k)"
proof -
  obtain n where k: "k = Suc n" using assms by (cases k) auto
  let ?F = "\<lambda>e. \<lparr>frac_n = x ^ e, frac_d = 1\<rparr>"
  have "map_err (\<lambda>e. fromBI (powBI x (nat e))) (rev [1..int n])
      = Inr (map (\<lambda>e. ?F (nat e)) (rev [1..int n]))"
    by (rule map_err_ok) (simp add: fromBI_eq powBI_pow)
  also have "map (\<lambda>e. ?F (nat e)) (rev [1..int n]) = map ?F (rev (map nat [1..int n]))"
    by (simp add: rev_map)
  also have "\<dots> = map ?F (rev [1..<Suc n])" by (simp only: map_nat_upto)
  finally have "vandermondeRow x (int k - 1) = Inr (map ?F (rev [1..<Suc n]) @ [?F 0])"
    using k by (simp add: vandermondeRow_def bind_err_def fromBI_eq)
  also have "map ?F (rev [1..<Suc n]) @ [?F 0] = map (\<lambda>c. ?F (n - c)) [0..<Suc n]"
    by (rule rev_powers)
  finally show ?thesis using k by (simp add: vrow_def)
qed

text \<open>The rows of the matrix of powers as polynomial evaluations.\<close>

lemma power_sum_reindex:
  fixes g :: "nat \<Rightarrow> real"
  shows "(\<Sum>c<Suc n. g c * t ^ (n - c)) = (\<Sum>i\<le>n. g (n - i) * t ^ i)"
proof -
  let ?h = "\<lambda>c. g c * t ^ (n - c)"
  have "(\<Sum>i<Suc n. ?h i) = (\<Sum>i<Suc n. ?h (Suc n - Suc i))"
    by (rule sum.nat_diff_reindex[symmetric])
  also have "\<dots> = (\<Sum>i<Suc n. g (n - i) * t ^ i)"
    by (rule sum.cong) auto
  finally show ?thesis by (simp only: lessThan_Suc_atMost)
qed

lemma vander_lin:
  assumes A: "\<And>c. c < Suc n \<Longrightarrow> A r c = X ^ (n - c)" and Ak: "A r (Suc n) = Y"
  shows "lin (Suc n) A v r = (\<Sum>i\<le>n. v (n - i) * X ^ i) + Y * v (Suc n)"
proof -
  have "lin (Suc n) A v r = (\<Sum>c<Suc n. A r c * v c) + A r (Suc n) * v (Suc n)"
    unfolding lin_def by (simp only: lessThan_Suc_atMost[symmetric] sum.lessThan_Suc)
  also have "(\<Sum>c<Suc n. A r c * v c) = (\<Sum>c<Suc n. v c * X ^ (n - c))"
    by (rule sum.cong) (simp_all add: A)
  also have "\<dots> = (\<Sum>i\<le>n. v (n - i) * X ^ i)" by (rule power_sum_reindex)
  finally show ?thesis by (simp add: Ak)
qed

lemma vander_nonsing:
  assumes A: "\<And>r c. r < Suc n \<Longrightarrow> c < Suc n \<Longrightarrow> A r c = X r ^ (n - c)"
    and inj: "inj_on X {..n}"
  shows "nonsing (Suc n) A"
  unfolding nonsing_def
proof (intro allI impI)
  fix v :: "nat \<Rightarrow> real" and c
  assume h: "ker (Suc n) A v \<and> v (Suc n) = 0" and c: "c < Suc n"
  let ?q = "\<lambda>t. \<Sum>i\<le>n. v (n - i) * t ^ i"
  have root: "?q (X r) = 0" if r: "r \<le> n" for r
  proof -
    have "lin (Suc n) A v r = ?q (X r) + A r (Suc n) * v (Suc n)"
      by (rule vander_lin) (use A r in simp_all)
    moreover have "lin (Suc n) A v r = 0" using h r by (simp add: ker_def)
    ultimately show ?thesis using h by simp
  qed
  have "is_poly n ?q" unfolding is_poly_def by (intro exI[of _ "\<lambda>i. v (n - i)"]) simp
  then have "?q t = 0" for t
  proof (rule is_poly_zero_of_roots)
    show "finite (X ` {..n})" by simp
    show "card (X ` {..n}) = Suc n" using inj by (simp add: card_image)
    show "\<forall>r\<in>X ` {..n}. ?q r = 0" using root by auto
  qed
  then have "\<forall>i\<le>n. v (n - i) = 0" using polyfun_eq_0[where c = "\<lambda>i. v (n - i)" and n = n] by simp
  then have "v (n - (n - c)) = 0" by simp
  then show "v c = 0" using c by simp
qed

text \<open>The system of a subset with pairwise distinct x-coordinates is solved.\<close>

lemma solveForIndices_spec:
  assumes k: "1 \<le> k" and len: "length idxs = k"
    and rng: "\<forall>ii\<in>set idxs. ii < length points"
    and d: "distinct (map (\<lambda>ii. px (points ! ii)) idxs)"
  shows "\<exists>cs. solveForIndices points k idxs = Inr cs \<and> length cs = k \<and>
           (\<forall>c<k. frac_inv (cs ! c)) \<and>
           val (last cs) = lagrange_value (map (\<lambda>ii. points ! ii) idxs)"
proof -
  obtain n where kn: "k = Suc n" using k by (cases k) auto
  let ?X = "\<lambda>r. px (points ! (idxs ! r))" and ?Y = "\<lambda>r. py (points ! (idxs ! r))"
  let ?rows = "map (\<lambda>ii. vrow (px (points ! ii)) k) idxs"
  let ?b = "map (\<lambda>ii. \<lparr>frac_n = py (points ! ii), frac_d = 1\<rparr>) idxs"
  let ?M = "map (\<lambda>(row, bi). row @ [bi]) (zip ?rows ?b)"
  have rows: "map_err (\<lambda>ii. vandermondeRow (px (points ! ii)) (int k - 1)) idxs = Inr ?rows"
    by (rule map_err_ok) (rule vandermondeRow_vrow[OF k])
  have b: "map_err (\<lambda>ii. fromBI (py (points ! ii))) idxs = Inr ?b"
    by (rule map_err_ok) (rule fromBI_eq)
  have M: "?M = map (\<lambda>ii. vrow (px (points ! ii)) k @ [\<lparr>frac_n = py (points ! ii), frac_d = 1\<rparr>]) idxs"
    by (simp add: zip_map_map zip_same_conv_map)
  have lv: "length (vrow x k) = k" for x by (simp add: vrow_def)
  have ent: "?M ! r ! c = (if c < k then \<lparr>frac_n = ?X r ^ (n - c), frac_d = 1\<rparr>
                          else \<lparr>frac_n = ?Y r, frac_d = 1\<rparr>)"
    if "r < k" "c \<le> k" for r c
    using that len lv kn by (auto simp: M nth_append vrow_def)
  have lrow: "length (?M ! r) = Suc k" if "r < k" for r
    using that len lv by (simp add: M)
  have wf: "wfM k ?M"
    unfolding wfM_def using len lrow ent by (auto simp del: map_map)
  have rvM: "rv ?M r c = (if c < k then of_int (?X r) ^ (n - c) else of_int (?Y r))"
    if "r < k" "c \<le> k" for r c
    using ent[OF that] by (simp add: rv_def)
  have inj: "inj_on (\<lambda>r. real_of_int (?X r)) {..n}"
  proof (rule inj_onI)
    fix a c assume a: "a \<in> {..n}" "c \<in> {..n}" "real_of_int (?X a) = real_of_int (?X c)"
    then have "map (\<lambda>ii. px (points ! ii)) idxs ! a = map (\<lambda>ii. px (points ! ii)) idxs ! c"
      using len kn by simp
    with nth_eq_iff_index_eq[OF d, of a c] a len kn show "a = c" by simp
  qed
  have ns: "nonsing k (rv ?M)"
    unfolding kn by (rule vander_nonsing[where X = "\<lambda>r. real_of_int (?X r)"])
      (use rvM kn inj in simp_all)
  have la: "length ?rows = k" and lb: "length ?b = k" using len by simp_all
  from solveFracSystem_spec[OF la lb wf ns] obtain x where x: "solveFracSystem ?rows ?b = Inr x"
    "length x = k" "\<forall>c<k. frac_inv (x ! c)"
    "ker k (rv ?M) (\<lambda>c. if c < k then val (x ! c) else - 1)"
    by blast
  have run: "solveForIndices points k idxs = Inr x"
    using rng rows b x(1) by (auto simp: solveForIndices_def Let_def bind_err_def)
  let ?v = "\<lambda>c. if c < k then val (x ! c) else - 1 :: real"
  let ?p = "\<lambda>t. \<Sum>i\<le>n. ?v (n - i) * t ^ i"
  have interp: "?p (of_int (?X r)) = of_int (?Y r)" if r: "r < k" for r
  proof -
    have "lin (Suc n) (rv ?M) ?v r = ?p (of_int (?X r)) + rv ?M r (Suc n) * ?v (Suc n)"
      by (rule vander_lin) (use rvM r kn in simp_all)
    moreover have "lin (Suc n) (rv ?M) ?v r = 0" using x(4) r kn by (simp add: ker_def)
    moreover have "rv ?M r (Suc n) = of_int (?Y r)" using rvM[of r k] r kn by simp
    ultimately show ?thesis using kn by simp
  qed
  let ?pts = "map (\<lambda>ii. points ! ii) idxs"
  have "lagrange_value ?pts = ?p 0"
  proof (rule lagrange_value_interpolates)
    show "distinct (map px ?pts)" using d by (simp add: comp_def)
    show "length ?pts = Suc n" using len kn by simp
    show "is_poly n ?p" unfolding is_poly_def by (intro exI[of _ "\<lambda>i. ?v (n - i)"]) simp
    show "\<forall>p\<in>set ?pts. ?p (of_int (px p)) = of_int (py p)"
    proof
      fix p assume "p \<in> set ?pts"
      then obtain r where r: "r < k" "p = points ! (idxs ! r)"
        using len by (auto simp: in_set_conv_nth)
      with interp[OF r(1)] show "?p (of_int (px p)) = of_int (py p)" by simp
    qed
  qed
  also have "?p 0 = ?v n"
  proof -
    have "?p 0 = (\<Sum>i\<in>{0}. ?v (n - i) * 0 ^ i)"
      by (rule sum.mono_neutral_right) auto
    then show ?thesis by simp
  qed
  also have "?v n = val (last x)"
  proof -
    have "x \<noteq> []" using x(2) kn by auto
    then have "last x = x ! n" using x(2) kn by (simp add: last_conv_nth)
    then show ?thesis using kn by simp
  qed
  finally have "val (last x) = lagrange_value ?pts" by simp
  with run x(2,3) show ?thesis by blast
qed

section \<open>The invariant of fractions\<close>

text \<open>
  Claim C3. The constructor fails with the division-by-zero error when the denominator is
  zero. For every other pair \<open>(n, d)\<close> it returns a fraction with a strictly positive
  denominator, numerator and denominator of greatest common divisor 1, standing for
  \<open>n / d\<close>; \<open>(0, d)\<close> becomes \<open>0/1\<close>. The operations \<open>add\<close>, \<open>sub\<close> and \<open>mul\<close> on
  fractions return a fraction with the same invariant, and so does \<open>div\<close> unless the
  divisor has numerator zero, where it fails with the division-by-zero error.
\<close>

theorem Frac_invariant:
  "mkFrac n 0 = Inl DivisionByZero \<and>
   (d \<noteq> 0 \<longrightarrow>
     (\<exists>r. mkFrac n d = Inr r \<and> 0 < frac_d r \<and> gcd (frac_n r) (frac_d r) = 1 \<and>
          frac_n r * d = n * frac_d r) \<and>
     mkFrac 0 d = Inr \<lparr>frac_n = 0, frac_d = 1\<rparr>) \<and>
   (frac_d a \<noteq> 0 \<and> frac_d b \<noteq> 0 \<longrightarrow>
     (\<exists>r. add a b = Inr r \<and> frac_inv r) \<and>
     (\<exists>r. sub a b = Inr r \<and> frac_inv r) \<and>
     (\<exists>r. mul a b = Inr r \<and> frac_inv r) \<and>
     (if frac_n b = 0 then div_frac a b = Inl DivisionByZero
      else (\<exists>r. div_frac a b = Inr r \<and> frac_inv r)))"
proof (intro conjI impI)
  show "mkFrac n 0 = Inl DivisionByZero" by (rule mkFrac_zero_den)
next
  assume d: "d \<noteq> 0"
  obtain r where r: "mkFrac n d = Inr r" "frac_inv r" "val r = of_int n / of_int d"
    using mkFrac_ok[OF d] by blast
  from r(2) have p: "0 < frac_d r" by (simp add: frac_inv_def)
  from r(3) d p have "real_of_int (frac_n r * d) = real_of_int (n * frac_d r)"
    by (simp add: val_def field_simps)
  then have "frac_n r * d = n * frac_d r" using of_int_eq_iff by blast
  with r show "\<exists>r. mkFrac n d = Inr r \<and> 0 < frac_d r \<and> gcd (frac_n r) (frac_d r) = 1 \<and>
          frac_n r * d = n * frac_d r"
    by (auto simp: frac_inv_def)
next
  assume d: "d \<noteq> 0"
  obtain r where r: "mkFrac 0 d = Inr r" "frac_inv r" "val r = of_int 0 / of_int d"
    using mkFrac_ok[OF d] by blast
  have "r = \<lparr>frac_n = 0, frac_d = 1\<rparr>"
    by (rule frac_inv_val_inject) (use r in simp_all)
  with r show "mkFrac 0 d = Inr \<lparr>frac_n = 0, frac_d = 1\<rparr>" by simp
next
  assume "frac_d a \<noteq> 0 \<and> frac_d b \<noteq> 0"
  then show "\<exists>r. add a b = Inr r \<and> frac_inv r" by (meson add_ok)
next
  assume "frac_d a \<noteq> 0 \<and> frac_d b \<noteq> 0"
  then show "\<exists>r. sub a b = Inr r \<and> frac_inv r" by (meson sub_ok)
next
  assume "frac_d a \<noteq> 0 \<and> frac_d b \<noteq> 0"
  then show "\<exists>r. mul a b = Inr r \<and> frac_inv r" by (meson mul_ok)
next
  assume "frac_d a \<noteq> 0 \<and> frac_d b \<noteq> 0"
  then show "if frac_n b = 0 then div_frac a b = Inl DivisionByZero
      else (\<exists>r. div_frac a b = Inr r \<and> frac_inv r)"
    by (cases "frac_n b = 0") (simp add: div_frac_zero, simp, meson div_frac_ok)
qed

theorem Frac_invariant_witness:
  "(\<exists>r. mkFrac 6 (- 4) = Inr r \<and> 0 < frac_d r \<and> gcd (frac_n r) (frac_d r) = 1 \<and>
        frac_n r * (- 4) = 6 * frac_d r) \<and>
   mkFrac 0 (- 4) = Inr \<lparr>frac_n = 0, frac_d = 1\<rparr> \<and>
   (\<exists>r. add \<lparr>frac_n = 1, frac_d = 2\<rparr> \<lparr>frac_n = 1, frac_d = 6\<rparr> = Inr r \<and> frac_inv r) \<and>
   (\<exists>r. sub \<lparr>frac_n = 1, frac_d = 2\<rparr> \<lparr>frac_n = 1, frac_d = 6\<rparr> = Inr r \<and> frac_inv r) \<and>
   (\<exists>r. mul \<lparr>frac_n = 1, frac_d = 2\<rparr> \<lparr>frac_n = 1, frac_d = 6\<rparr> = Inr r \<and> frac_inv r) \<and>
   (\<exists>r. div_frac \<lparr>frac_n = 1, frac_d = 2\<rparr> \<lparr>frac_n = 1, frac_d = 6\<rparr> = Inr r \<and> frac_inv r)"
  using Frac_invariant [of 6 "- 4" "\<lparr>frac_n = 1, frac_d = 2\<rparr>" "\<lparr>frac_n = 1, frac_d = 6\<rparr>"]
  by simp

section \<open>Direct mode\<close>

text \<open>
  Claim C1. For a list of exactly \<open>k\<close> points with pairwise distinct x-coordinates that all
  lie on one polynomial with integer coefficients of degree at most \<open>k - 1\<close>, direct mode
  (Lagrange interpolation at zero over the \<open>k\<close> points) returns the constant term of the
  polynomial, its value at zero.
\<close>

theorem direct_mode_exact:
  assumes "length points = k" and "distinct (map px points)" and "length cs \<le> k"
    and "\<forall>p\<in>set points. py p = poly_eval cs (px p)"
  shows "direct_mode points k = Inr (poly_eval cs 0)"
  using assms constantViaLagrange_exact[of points cs] by (simp add: direct_mode_def)

theorem direct_mode_exact_witness:
  "direct_mode [\<lparr>px = 1, py = 10\<rparr>, \<lparr>px = 2, py = 21\<rparr>, \<lparr>px = 3, py = 38\<rparr>] 3 = Inr (poly_eval [5, 2, 3] 0)"
  using direct_mode_exact[of "[\<lparr>px = 1, py = 10\<rparr>, \<lparr>px = 2, py = 21\<rparr>, \<lparr>px = 3, py = 38\<rparr>]" 3 "[5, 2, 3]"]
  by (simp add: poly_eval_def lessThan_nat_numeral lessThan_Suc)

section \<open>The subset enumerator\<close>

text \<open>
  Claim C5. For \<open>0 \<le> k \<le> n\<close> the generator returns, and it yields exactly
  \<open>n choose k\<close> index arrays: every strictly increasing sequence of \<open>k\<close> indices below
  \<open>n\<close>, each once, in strictly increasing lexicographic order, \<open>[0, ..., k - 1]\<close> first.
\<close>

theorem kCombinations_enumerates:
  assumes "k \<le> n"
  shows "\<exists>cs. kCombinations n k = Some cs \<and> length cs = n choose k \<and>
           set cs = {c. length c = k \<and> sorted_wrt (<) c \<and> set c \<subseteq> {..<n}} \<and>
           sorted_wrt (<) cs \<and> hd cs = [0..<k] \<and> distinct cs"
proof -
  obtain cs where cs: "kCombinations n k = Some cs" "sorted_wrt (<) cs"
    "set cs = {c. valid_combo n k c}" "hd cs = [0..<k]"
    using kCombinations_valid[OF assms] by blast
  have d: "distinct cs" using cs(2) by (simp add: strict_sorted_iff)
  then have "length cs = card (set cs)" by (simp add: distinct_card)
  then have len: "length cs = n choose k" using cs(3) by (simp add: card_valid_combo)
  have "valid_combo n k c \<longleftrightarrow> length c = k \<and> sorted_wrt (<) c \<and> set c \<subseteq> {..<n}" for c
    unfolding valid_combo_def by auto
  then have st: "set cs = {c. length c = k \<and> sorted_wrt (<) c \<and> set c \<subseteq> {..<n}}"
    using cs(3) by simp
  show ?thesis
    by (intro exI[of _ cs] conjI cs(1) len st cs(2) cs(4) d)
qed

theorem kCombinations_enumerates_witness:
  "\<exists>cs. kCombinations 4 2 = Some cs \<and> length cs = 4 choose 2 \<and>
        set cs = {c. length c = 2 \<and> sorted_wrt (<) c \<and> set c \<subseteq> {..<4}} \<and>
        sorted_wrt (<) cs \<and> hd cs = [0..<2] \<and> distinct cs"
  by (rule kCombinations_enumerates) simp

section \<open>Subsets with a repeated x-coordinate\<close>

text \<open>
  Claim C8. For every subset that holds two points with the same x-coordinate, the Lagrange
  interpolation attempt fails with the division-by-zero error, and in voting mode the subset
  leaves the tally as it was: it casts no vote.
\<close>

theorem repeated_x_no_vote:
  assumes "\<not> distinct (map px pts)"
  shows "constantViaLagrange pts = Inl DivisionByZero \<and>
         (map (\<lambda>i. points ! i) combo = pts \<longrightarrow> vote_step points combo st = st)"
proof -
  have f: "constantViaLagrange pts = Inl DivisionByZero"
    using assms by (simp add: constantViaLagrange_char)
  then have "vote_key points combo = None" if "map (\<lambda>i. points ! i) combo = pts"
    using that by (simp add: vote_key_def)
  with f show ?thesis by (simp add: vote_step_None)
qed

theorem repeated_x_no_vote_witness:
  "constantViaLagrange [\<lparr>px = 1, py = 5\<rparr>, \<lparr>px = 1, py = 9\<rparr>, \<lparr>px = 2, py = 13\<rparr>]
     = Inl DivisionByZero \<and>
   vote_step [\<lparr>px = 1, py = 5\<rparr>, \<lparr>px = 1, py = 9\<rparr>, \<lparr>px = 2, py = 13\<rparr>] [0, 1, 2] vote_init
     = vote_init"
  using repeated_x_no_vote [of "[\<lparr>px = 1, py = 5\<rparr>, \<lparr>px = 1, py = 9\<rparr>, \<lparr>px = 2, py = 13\<rparr>]"
    "[\<lparr>px = 1, py = 5\<rparr>, \<lparr>px = 1, py = 9\<rparr>, \<lparr>px = 2, py = 13\<rparr>]" "[0, 1, 2]" vote_init]
  by simp

section \<open>The direct path of the substitution solver\<close>



section \<open>The winner of the vote\<close>

text \<open>
  Claim C4. In voting mode, after all subsets have been evaluated, the value returned is the
  candidate with the greatest vote count; among candidates with the same greatest count it
  is the one inserted first into the tally, which is the one produced first in the
  lexicographic order of the subsets. This holds for the voting loop of Problem.js and for
  the one of the substitution solver, whose returned coefficients end in the winning value:
  each of the two returns that winner whenever at least one subset has cast a vote, and
  fails with the no-consistent-subset error when none has.
\<close>

theorem vote_winner:
  assumes "k \<le> length points"
  shows "\<exists>combos. kCombinations (length points) k = Some combos \<and> sorted_wrt (<) combos \<and>
      (if vote_keys points combos = []
       then voting_mode points k = Some (Inl NoConsistentSubset)
       else \<exists>w. voting_mode points k = Some (Inr (Some w)) \<and>
              first_max_entry (counts (vote_all points combos)) w \<and>
              first_most_frequent (vote_keys points combos) w) \<and>
      (if sub_vote_keys points k combos = []
       then solve_vote points k = Some (Inl NoConsistentSubset)
       else \<exists>res. solve_vote points k = Some (Inr res) \<and> coeffs res \<noteq> [] \<and>
              first_max_entry (entry_counts (sub_vote_all points k combos))
                (toStringFrac (last (coeffs res))) \<and>
              first_most_frequent (sub_vote_keys points k combos)
                (toStringFrac (last (coeffs res))))"
proof -
  obtain combos where c: "kCombinations (length points) k = Some combos" "sorted_wrt (<) combos"
    using kCombinations_valid[OF assms] by blast
  have winner: "\<exists>w. pick_best (fold count_vote ks []) = Some w \<and>
      first_max_entry (fold count_vote ks []) w \<and> first_most_frequent ks w"
    if ne: "ks \<noteq> []" for ks
  proof -
    have tne: "fold count_vote ks [] \<noteq> []" using ne tally_empty_iff by metis
    obtain w where w: "pick_best (fold count_vote ks []) = Some w" "first_most_frequent ks w"
      using pick_best_tally[OF ne] by blast
    obtain w' where w': "pick_best (fold count_vote ks []) = Some w'"
       "first_max_entry (fold count_vote ks []) w'"
      using pick_best_first_max[OF tne] by blast
    from w w' have "w' = w" by simp
    with w w' show ?thesis by blast
  qed
  let ?ks = "vote_keys points combos"
  have js: "if ?ks = [] then voting_mode points k = Some (Inl NoConsistentSubset)
       else \<exists>w. voting_mode points k = Some (Inr (Some w)) \<and>
              first_max_entry (counts (vote_all points combos)) w \<and>
              first_most_frequent ?ks w"
  proof (cases "?ks = []")
    case True
    then show ?thesis using voting_mode_result[OF c(1)] by simp
  next
    case False
    from winner[OF False] obtain w where w: "pick_best (fold count_vote ?ks []) = Some w"
      "first_max_entry (fold count_vote ?ks []) w" "first_most_frequent ?ks w"
      by blast
    have "voting_mode points k = Some (Inr (Some w))"
      using voting_mode_result[OF c(1)] False w(1) by simp
    with False w(2,3) show ?thesis by (simp add: counts_vote_all)
  qed
  let ?ss = "sub_vote_keys points k combos"
  have sub: "if ?ss = [] then solve_vote points k = Some (Inl NoConsistentSubset)
       else \<exists>res. solve_vote points k = Some (Inr res) \<and> coeffs res \<noteq> [] \<and>
              first_max_entry (entry_counts (sub_vote_all points k combos))
                (toStringFrac (last (coeffs res))) \<and>
              first_most_frequent ?ss (toStringFrac (last (coeffs res)))"
  proof (cases "?ss = []")
    case True
    then show ?thesis using solve_vote_result(1)[OF c(1)] by simp
  next
    case False
    from solve_vote_result(2)[OF c(1) False] obtain res
      where res: "solve_vote points k = Some (Inr res)" "coeffs res \<noteq> []"
        "pick_best (fold count_vote ?ss []) = Some (toStringFrac (last (coeffs res)))"
      by blast
    from winner[OF False] obtain w where w: "pick_best (fold count_vote ?ss []) = Some w"
      "first_max_entry (fold count_vote ?ss []) w" "first_most_frequent ?ss w"
      by blast
    from res(3) w(1) have "w = toStringFrac (last (coeffs res))" by simp
    with False res(1,2) w(2,3) show ?thesis
      by (auto simp: entry_counts_sub_vote_all)
  qed
  from c js sub show ?thesis by blast
qed

theorem vote_winner_witness:
  "voting_mode [\<lparr>px = 1, py = 7\<rparr>, \<lparr>px = 2, py = 9\<rparr>, \<lparr>px = 3, py = 11\<rparr>, \<lparr>px = 4, py = 0\<rparr>] 2
     = Some (Inr (Some ''5'')) \<and>
   first_most_frequent (vote_keys [\<lparr>px = 1, py = 7\<rparr>, \<lparr>px = 2, py = 9\<rparr>, \<lparr>px = 3, py = 11\<rparr>, \<lparr>px = 4, py = 0\<rparr>]
      [[0, 1], [0, 2], [0, 3], [1, 2], [1, 3], [2, 3]]) ''5'' \<and>
   (\<exists>res. solve_vote [\<lparr>px = 1, py = 7\<rparr>, \<lparr>px = 2, py = 9\<rparr>, \<lparr>px = 3, py = 11\<rparr>, \<lparr>px = 4, py = 0\<rparr>] 2
             = Some (Inr res) \<and>
          toStringFrac (last (coeffs res)) = ''5'' \<and>
          first_most_frequent (sub_vote_keys [\<lparr>px = 1, py = 7\<rparr>, \<lparr>px = 2, py = 9\<rparr>, \<lparr>px = 3, py = 11\<rparr>, \<lparr>px = 4, py = 0\<rparr>] 2
             [[0, 1], [0, 2], [0, 3], [1, 2], [1, 3], [2, 3]]) ''5'')"
proof -
  let ?P = "[\<lparr>px = 1, py = 7\<rparr>, \<lparr>px = 2, py = 9\<rparr>, \<lparr>px = 3, py = 11\<rparr>, \<lparr>px = 4, py = 0\<rparr>]"
  let ?C = "[[0, 1], [0, 2], [0, 3], [1, 2], [1, 3], [2, 3 :: nat]]"
  have kc: "kCombinations 4 2 = Some ?C" by code_simp
  have vk: "vote_keys ?P ?C \<noteq> []" by code_simp
  have sk: "sub_vote_keys ?P 2 ?C \<noteq> []" by code_simp
  have v: "voting_mode ?P 2 = Some (Inr (Some ''5''))" by code_simp
  have s: "solve_vote ?P 2 =
      Some (Inr \<lparr>coeffs = [\<lparr>frac_n = 2, frac_d = 1\<rparr>, \<lparr>frac_n = 5, frac_d = 1\<rparr>],
                 used_indices = [0, 1],
                 votes_summary = Some [(''5'', 3), (''28/3'', 1), (''18'', 1), (''44'', 1)]\<rparr>)"
    by code_simp
  have t: "toStringFrac \<lparr>frac_n = 5, frac_d = 1\<rparr> = ''5''" by code_simp
  have len: "2 \<le> length ?P" by simp
  from vote_winner [OF len] obtain combos
    where c: "kCombinations (length ?P) 2 = Some combos"
      and js: "if vote_keys ?P combos = []
         then voting_mode ?P 2 = Some (Inl NoConsistentSubset)
         else \<exists>w. voting_mode ?P 2 = Some (Inr (Some w)) \<and>
              first_max_entry (counts (vote_all ?P combos)) w \<and>
              first_most_frequent (vote_keys ?P combos) w"
      and sb: "if sub_vote_keys ?P 2 combos = []
         then solve_vote ?P 2 = Some (Inl NoConsistentSubset)
         else \<exists>res. solve_vote ?P 2 = Some (Inr res) \<and> coeffs res \<noteq> [] \<and>
              first_max_entry (entry_counts (sub_vote_all ?P 2 combos))
                (toStringFrac (last (coeffs res))) \<and>
              first_most_frequent (sub_vote_keys ?P 2 combos)
                (toStringFrac (last (coeffs res)))"
    by blast
  have "kCombinations (length ?P) 2 = kCombinations 4 2" by (simp add: numeral_eq_Suc)
  with c kc have ce: "combos = ?C" by simp
  from js vk v have w: "first_most_frequent (vote_keys ?P ?C) ''5''"
    unfolding ce by (auto split: if_splits)
  from sb sk obtain res where res: "solve_vote ?P 2 = Some (Inr res)"
      "first_most_frequent (sub_vote_keys ?P 2 ?C) (toStringFrac (last (coeffs res)))"
    unfolding ce by (auto split: if_splits)
  from res(1) s t have tt: "toStringFrac (last (coeffs res)) = ''5''" by auto
  from v w res tt show ?thesis by (intro conjI exI[of _ res]) simp_all
qed

section \<open>Failed subsets in voting mode\<close>

text \<open>
  In both voting loops a subset whose attempt fails leaves the tally as it was, and the loop
  goes on with the remaining subsets. The run of Problem.js fails with the
  no-consistent-subset error if and only if no subset yields an integral result; the run of
  the substitution solver fails with its error if and only if no subset's linear system is
  solved to a coefficient vector.
\<close>

lemma skipped_subsets:
  assumes "k \<le> length points"
  shows "((\<forall>c. constantViaLagrange (map (\<lambda>i. points ! i) combo) \<noteq> Inr c) \<longrightarrow>
            vote_step points combo st = st \<and>
            vote_all points (cs1 @ combo # cs2) = vote_all points (cs1 @ cs2)) \<and>
         ((\<forall>cs. solveForIndices points k combo \<noteq> Inr cs) \<longrightarrow>
            sub_vote_step points k combo votes = votes \<and>
            sub_vote_all points k (cs1 @ combo # cs2) = sub_vote_all points k (cs1 @ cs2)) \<and>
         (\<exists>combos. kCombinations (length points) k = Some combos \<and>
            (voting_mode points k = Some (Inl NoConsistentSubset) \<longleftrightarrow>
               (\<forall>combo\<in>set combos. \<forall>c. constantViaLagrange (map (\<lambda>i. points ! i) combo) \<noteq> Inr c)) \<and>
            (solve_vote points k = Some (Inl NoConsistentSubset) \<longleftrightarrow>
               (\<forall>combo\<in>set combos. \<forall>cs. solveForIndices points k combo = Inr cs \<longrightarrow> cs = [])))"
proof (intro conjI impI)
  assume f: "\<forall>c. constantViaLagrange (map (\<lambda>i. points ! i) combo) \<noteq> Inr c"
  then have n: "vote_key points combo = None"
    by (cases "constantViaLagrange (map (\<lambda>i. points ! i) combo)") (simp_all add: vote_key_def)
  show "vote_step points combo st = st" by (rule vote_step_None[OF n])
  show "vote_all points (cs1 @ combo # cs2) = vote_all points (cs1 @ cs2)"
    by (rule vote_all_skip[OF n])
next
  assume f: "\<forall>cs. solveForIndices points k combo \<noteq> Inr cs"
  then have n: "sub_vote_key points k combo = None" by (simp add: sub_vote_key_None)
  show "sub_vote_step points k combo votes = votes" by (rule sub_vote_step_None[OF n])
  show "sub_vote_all points k (cs1 @ combo # cs2) = sub_vote_all points k (cs1 @ cs2)"
    by (rule sub_vote_all_skip[OF n])
next
  obtain combos where c: "kCombinations (length points) k = Some combos"
    "set combos = {c. valid_combo (length points) k c}"
    using kCombinations_valid[OF assms] by blast
  have "voting_mode points k = Some (Inl NoConsistentSubset) \<longleftrightarrow> vote_keys points combos = []"
    using voting_mode_result[OF c(1)] by simp
  also have "\<dots> \<longleftrightarrow> (\<forall>combo\<in>set combos. vote_key points combo = None)"
    by (simp add: vote_keys_def map_filter_empty_iff)
  also have "\<dots> \<longleftrightarrow>
      (\<forall>combo\<in>set combos. \<forall>c. constantViaLagrange (map (\<lambda>i. points ! i) combo) \<noteq> Inr c)"
    using c(2) valid_combo_vote_key by blast
  finally have js: "voting_mode points k = Some (Inl NoConsistentSubset) \<longleftrightarrow>
      (\<forall>combo\<in>set combos. \<forall>c. constantViaLagrange (map (\<lambda>i. points ! i) combo) \<noteq> Inr c)" .
  have "solve_vote points k = Some (Inl NoConsistentSubset) \<longleftrightarrow> sub_vote_keys points k combos = []"
    using solve_vote_result[OF c(1)] by (cases "sub_vote_keys points k combos = []") auto
  also have "\<dots> \<longleftrightarrow> (\<forall>combo\<in>set combos. sub_vote_key points k combo = None)"
    by (simp add: sub_vote_keys_def map_filter_empty_iff)
  also have "\<dots> \<longleftrightarrow>
      (\<forall>combo\<in>set combos. \<forall>cs. solveForIndices points k combo = Inr cs \<longrightarrow> cs = [])"
    by (simp add: sub_vote_key_None)
  finally have sb: "solve_vote points k = Some (Inl NoConsistentSubset) \<longleftrightarrow>
      (\<forall>combo\<in>set combos. \<forall>cs. solveForIndices points k combo = Inr cs \<longrightarrow> cs = [])" .
  from c(1) js sb show "\<exists>combos. kCombinations (length points) k = Some combos \<and>
            (voting_mode points k = Some (Inl NoConsistentSubset) \<longleftrightarrow>
               (\<forall>combo\<in>set combos. \<forall>c. constantViaLagrange (map (\<lambda>i. points ! i) combo) \<noteq> Inr c)) \<and>
            (solve_vote points k = Some (Inl NoConsistentSubset) \<longleftrightarrow>
               (\<forall>combo\<in>set combos. \<forall>cs. solveForIndices points k combo = Inr cs \<longrightarrow> cs = []))"
    by blast
qed

text \<open>
  Claim C7. In voting mode every subset whose interpolation attempt fails is skipped, adding
  no entry to the tally, and the run fails with the no-consistent-subset error if and only
  if no subset produces an integral result. The voting loop of the substitution solver
  breaks the second half: unlike its sibling in Problem.js it never tests the constant term
  for integrality. On the points \<open>(1,0)\<close>, \<open>(3,1)\<close>, \<open>(5,2)\<close> with \<open>k = 2\<close> no subset has an
  integral constant term and Problem.js fails with the error, but the substitution solver
  tallies the fraction \<open>-1/2\<close> three times, returns it as the winner, and its command line
  prints the numerator \<open>-1\<close> as the constant.
\<close>

theorem solver_tallies_non_integral:
  "kCombinations 3 2 = Some [[0, 1], [0, 2], [1, 2]] \<and>
   constantViaLagrange (map (\<lambda>i. [\<lparr>px = 1, py = 0\<rparr>, \<lparr>px = 3, py = 1\<rparr>, \<lparr>px = 5, py = 2\<rparr>] ! i) [0, 1]) = Inl NonIntegerResult \<and>
   constantViaLagrange (map (\<lambda>i. [\<lparr>px = 1, py = 0\<rparr>, \<lparr>px = 3, py = 1\<rparr>, \<lparr>px = 5, py = 2\<rparr>] ! i) [0, 2]) = Inl NonIntegerResult \<and>
   constantViaLagrange (map (\<lambda>i. [\<lparr>px = 1, py = 0\<rparr>, \<lparr>px = 3, py = 1\<rparr>, \<lparr>px = 5, py = 2\<rparr>] ! i) [1, 2]) = Inl NonIntegerResult \<and>
   voting_mode [\<lparr>px = 1, py = 0\<rparr>, \<lparr>px = 3, py = 1\<rparr>, \<lparr>px = 5, py = 2\<rparr>] 2 = Some (Inl NoConsistentSubset) \<and>
   solveForIndices [\<lparr>px = 1, py = 0\<rparr>, \<lparr>px = 3, py = 1\<rparr>, \<lparr>px = 5, py = 2\<rparr>] 2 [0, 1] = Inr [\<lparr>frac_n = 1, frac_d = 2\<rparr>, \<lparr>frac_n = - 1, frac_d = 2\<rparr>] \<and>
   solveForIndices [\<lparr>px = 1, py = 0\<rparr>, \<lparr>px = 3, py = 1\<rparr>, \<lparr>px = 5, py = 2\<rparr>] 2 [0, 2] = Inr [\<lparr>frac_n = 1, frac_d = 2\<rparr>, \<lparr>frac_n = - 1, frac_d = 2\<rparr>] \<and>
   solveForIndices [\<lparr>px = 1, py = 0\<rparr>, \<lparr>px = 3, py = 1\<rparr>, \<lparr>px = 5, py = 2\<rparr>] 2 [1, 2] = Inr [\<lparr>frac_n = 1, frac_d = 2\<rparr>, \<lparr>frac_n = - 1, frac_d = 2\<rparr>] \<and>
   isInt \<lparr>frac_n = - 1, frac_d = 2\<rparr> = False \<and>
   solve_vote [\<lparr>px = 1, py = 0\<rparr>, \<lparr>px = 3, py = 1\<rparr>, \<lparr>px = 5, py = 2\<rparr>] 2 =
     Some (Inr \<lparr>coeffs = [\<lparr>frac_n = 1, frac_d = 2\<rparr>, \<lparr>frac_n = - 1, frac_d = 2\<rparr>],
                used_indices = [0, 1], votes_summary = Some [(''-1/2'', 3)]\<rparr>) \<and>
   substitution_main [\<lparr>px = 1, py = 0\<rparr>, \<lparr>px = 3, py = 1\<rparr>, \<lparr>px = 5, py = 2\<rparr>] 2 True = Some (Inr (- 1))"
  by code_simp

section \<open>Duplicate keys in a pick list\<close>

text \<open>
  Claim C10. \<^verbatim>\<open>parsePickArg\<close> removes duplicate x-keys, keeping first occurrences, before
  \<^verbatim>\<open>main\<close> checks the size of the list. So a pick list of exactly \<open>k\<close> keys of which two are
  equal is reduced to fewer than \<open>k\<close> keys, and direct mode fails with the wrong-subset-size
  error, before any point is looked up or interpolated. A subset picked by \<^verbatim>\<open>--pick\<close> has
  the pairwise distinct keys as its x-coordinates: it never holds a repeated point.
\<close>

theorem pick_duplicates_removed:
  assumes "pick_keys argv = Inr (Some keys)"
  shows "parsePickArg argv = Inr (Some (dedupe keys)) \<and>
         dedupe keys = rev (remdups (rev keys)) \<and>
         distinct (dedupe keys) \<and> set (dedupe keys) = set keys \<and>
         (length keys = k \<and> \<not> distinct keys \<longrightarrow>
            length (dedupe keys) < k \<and>
            pick_subset points k (dedupe keys) = Inl WrongSubsetSize \<and>
            main_problem argv k n points = Some (Inl WrongSubsetSize)) \<and>
         (\<forall>sub_pts. pick_subset points k (dedupe keys) = Inr sub_pts \<longrightarrow>
            map px sub_pts = dedupe keys \<and> distinct (map px sub_pts))"
proof -
  have p: "parsePickArg argv = Inr (Some (dedupe keys))"
    using assms by (simp add: parsePickArg_def bind_err_def)
  have dup: "length (dedupe keys) < k \<and>
            pick_subset points k (dedupe keys) = Inl WrongSubsetSize \<and>
            main_problem argv k n points = Some (Inl WrongSubsetSize)"
    if "length keys = k \<and> \<not> distinct keys"
  proof -
    from that dedupe_length[of keys] have l: "length (dedupe keys) < k" by simp
    then have ps: "pick_subset points k (dedupe keys) = Inl WrongSubsetSize"
      by (simp add: pick_subset_def)
    with p l show ?thesis by (simp add: main_problem_def bind_err_def)
  qed
  have sub: "map px sub_pts = dedupe keys \<and> distinct (map px sub_pts)"
    if "pick_subset points k (dedupe keys) = Inr sub_pts" for sub_pts
    using pick_subset_xs[OF that] dedupe_distinct[of keys] by simp
  from p dup sub show ?thesis
    by (simp add: dedupe_remdups[symmetric] dedupe_distinct dedupe_set)
qed

theorem pick_duplicates_removed_witness:
  "parsePickArg [''--pick=1,2,2''] = Inr (Some (dedupe [1, 2, 2])) \<and>
   dedupe [1, 2, 2] = [1, 2] \<and>
   main_problem [''--pick=1,2,2''] 3 4
     [\<lparr>px = 1, py = 7\<rparr>, \<lparr>px = 2, py = 9\<rparr>, \<lparr>px = 3, py = 11\<rparr>, \<lparr>px = 4, py = 0\<rparr>]
     = Some (Inl WrongSubsetSize)"
proof -
  have a: "pick_keys [''--pick=1,2,2''] = Inr (Some [1, 2, 2])"
    by code_simp
  from pick_duplicates_removed [OF a, of 3
      "[\<lparr>px = 1, py = 7\<rparr>, \<lparr>px = 2, py = 9\<rparr>, \<lparr>px = 3, py = 11\<rparr>, \<lparr>px = 4, py = 0\<rparr>]" 4]
  show ?thesis by simp
qed

section \<open>Voting mode and the order of the points\<close>

text \<open>
  Claim C6, as amended. For every point sequence with at least \<open>k\<close> points and every
  permutation of it, voting mode enumerates the same index subsets and gives every candidate
  the same number of votes: the candidate-to-count mapping is identical. The run fails on
  one sequence exactly when it fails on the other, and when one candidate has strictly more
  votes than every other, both runs return it. Candidates that tie for the greatest count are
  told apart by the order of insertion, which depends on the order of the points.
\<close>

theorem voting_permutation:
  assumes "mset points' = mset points" and "k \<le> length points"
  shows "\<exists>combos. kCombinations (length points) k = Some combos \<and>
           kCombinations (length points') k = Some combos \<and>
           (\<forall>key. count_list (vote_keys points' combos) key = count_list (vote_keys points combos) key) \<and>
           map_of (counts (vote_all points' combos)) = map_of (counts (vote_all points combos)) \<and>
           (voting_mode points' k = Some (Inl NoConsistentSubset) \<longleftrightarrow>
              voting_mode points k = Some (Inl NoConsistentSubset)) \<and>
           (\<forall>w. voting_mode points k = Some (Inr (Some w)) \<and>
                (\<forall>v\<in>set (vote_keys points combos). v \<noteq> w \<longrightarrow>
                   count_list (vote_keys points combos) v < count_list (vote_keys points combos) w)
              \<longrightarrow> voting_mode points' k = Some (Inr (Some w)))"
proof -
  have len: "length points' = length points" using assms(1) by (rule mset_eq_length)
  obtain f where f: "bij_betw f {..<length points} {..<length points}"
    "points' = map (\<lambda>i. points ! f i) [0..<length points]"
    using mset_eq_index_perm[OF assms(1)] by blast
  obtain combos where c: "kCombinations (length points) k = Some combos" "sorted_wrt (<) combos"
    "set combos = {c. valid_combo (length points) k c}"
    using kCombinations_valid[OF assms(2)] by blast
  have d: "distinct combos" using c(2) by (simp add: strict_sorted_iff)
  let ?ks = "vote_keys points combos" and ?ks' = "vote_keys points' combos"
  have m: "mset ?ks' = mset ?ks" by (rule vote_keys_perm[OF f c(3) d])
  then have st: "set ?ks' = set ?ks" by (rule mset_eq_setD)
  have cnt: "count_list ?ks' key = count_list ?ks key" for key
    using m by (simp add: count_list_mset)
  have tal: "map_of (counts (vote_all points' combos)) = map_of (counts (vote_all points combos))"
    by (rule ext) (simp add: counts_vote_all tally_count cnt st)
  have c': "kCombinations (length points') k = Some combos" using c(1) len by simp
  have e: "?ks' = [] \<longleftrightarrow> ?ks = []" using st by (metis set_empty)
  have fail: "voting_mode points' k = Some (Inl NoConsistentSubset) \<longleftrightarrow>
              voting_mode points k = Some (Inl NoConsistentSubset)"
    using voting_mode_result[OF c(1)] voting_mode_result[OF c'] e by simp
  have win: "voting_mode points' k = Some (Inr (Some w))"
    if w: "voting_mode points k = Some (Inr (Some w))"
      and u: "\<forall>v\<in>set ?ks. v \<noteq> w \<longrightarrow> count_list ?ks v < count_list ?ks w" for w
  proof -
    from w voting_mode_result[OF c(1)] have ne: "?ks \<noteq> []"
      and pb: "pick_best (fold count_vote ?ks []) = Some w"
      by (auto split: if_splits)
    from pick_best_tally[OF ne] pb have "first_most_frequent ?ks w" by auto
    then have wk: "w \<in> set ?ks" by (simp add: first_most_frequent_def)
    from ne e have ne': "?ks' \<noteq> []" by simp
    obtain w' where w': "pick_best (fold count_vote ?ks' []) = Some w'" "first_most_frequent ?ks' w'"
      using pick_best_tally[OF ne'] by blast
    then have "w' \<in> set ?ks'" and "count_list ?ks' w \<le> count_list ?ks' w'"
      using wk st by (auto simp: first_most_frequent_def)
    then have "w' \<in> set ?ks" "count_list ?ks w \<le> count_list ?ks w'"
      using st cnt by auto
    with u have "w' = w" by force
    with w' voting_mode_result[OF c'] ne' show ?thesis by simp
  qed
  show ?thesis
    by (intro exI[of _ combos] conjI allI impI c(1) c' cnt tal fail) (use win in blast)
qed

theorem voting_permutation_witness:
  "voting_mode [\<lparr>px = 4, py = 0\<rparr>, \<lparr>px = 3, py = 11\<rparr>, \<lparr>px = 2, py = 9\<rparr>, \<lparr>px = 1, py = 7\<rparr>] 2
     = Some (Inr (Some ''5''))"
proof -
  let ?P = "[\<lparr>px = 1, py = 7\<rparr>, \<lparr>px = 2, py = 9\<rparr>, \<lparr>px = 3, py = 11\<rparr>, \<lparr>px = 4, py = 0\<rparr>]"
  let ?P' = "[\<lparr>px = 4, py = 0\<rparr>, \<lparr>px = 3, py = 11\<rparr>, \<lparr>px = 2, py = 9\<rparr>, \<lparr>px = 1, py = 7\<rparr>]"
  have m: "mset ?P' = mset ?P" by (simp add: add_mset_commute)
  have l: "2 \<le> length ?P" by simp
  have kc: "kCombinations (length ?P) 2 = Some [[0, 1], [0, 2], [0, 3], [1, 2], [1, 3], [2, 3]]"
    by code_simp
  have ks: "vote_keys ?P [[0, 1], [0, 2], [0, 3], [1, 2], [1, 3], [2, 3]]
      = [''5'', ''5'', ''5'', ''18'', ''44'']"
    by code_simp
  have v: "voting_mode ?P 2 = Some (Inr (Some ''5''))"
    by code_simp
  from voting_permutation [OF m l] kc obtain combos
    where c: "combos = [[0, 1], [0, 2], [0, 3], [1, 2], [1, 3], [2, 3]]"
      and w: "\<forall>w. voting_mode ?P 2 = Some (Inr (Some w)) \<and>
                (\<forall>v\<in>set (vote_keys ?P combos). v \<noteq> w \<longrightarrow>
                   count_list (vote_keys ?P combos) v < count_list (vote_keys ?P combos) w)
              \<longrightarrow> voting_mode ?P' 2 = Some (Inr (Some w))"
    by auto
  have "\<forall>v\<in>set (vote_keys ?P combos). v \<noteq> ''5'' \<longrightarrow>
          count_list (vote_keys ?P combos) v < count_list (vote_keys ?P combos) ''5''"
    unfolding c ks by simp
  with w v show ?thesis by blast
qed

theorem voting_permutation_counterexample:
  "mset [\<lparr>px = 2, py = 7\<rparr>, \<lparr>px = 1, py = 5\<rparr>] = mset [\<lparr>px = 1, py = 5\<rparr>, \<lparr>px = 2, py = 7\<rparr>] \<and>
   voting_mode [\<lparr>px = 1, py = 5\<rparr>, \<lparr>px = 2, py = 7\<rparr>] 1 = Some (Inr (Some ''5'')) \<and>
   voting_mode [\<lparr>px = 2, py = 7\<rparr>, \<lparr>px = 1, py = 5\<rparr>] 1 = Some (Inr (Some ''7''))"
proof (intro conjI)
  show "mset [\<lparr>px = 2, py = 7\<rparr>, \<lparr>px = 1, py = 5\<rparr>] = mset [\<lparr>px = 1, py = 5\<rparr>, \<lparr>px = 2, py = 7\<rparr>]"
    by (simp add: add_mset_commute)
  show "voting_mode [\<lparr>px = 1, py = 5\<rparr>, \<lparr>px = 2, py = 7\<rparr>] 1 = Some (Inr (Some ''5''))"
    by code_simp
  show "voting_mode [\<lparr>px = 2, py = 7\<rparr>, \<lparr>px = 1, py = 5\<rparr>] 1 = Some (Inr (Some ''7''))"
    by code_simp
qed

section \<open>Lagrange interpolation and Gaussian elimination agree\<close>

text \<open>
  Claim C2.  Take a subset of \<open>k \<ge> 1\<close> points, given by \<open>k\<close> indices into the point
  list, for which the Lagrange computation of \<open>Problem.js\<close> returns an integer \<open>c\<close> (so
  the x-coordinates of the subset are pairwise distinct and the interpolated constant is an
  integer).  Then the Gaussian elimination of the substitution solver, run on the matrix of
  powers of the same subset, returns a coefficient vector of length \<open>k\<close> whose last entry
  \<open>a\<^sub>0\<close> is exactly the fraction \<open>c/1\<close>: the two programs produce the same constant.
\<close>

theorem lagrange_gauss_agree:
  assumes "1 \<le> k" and "length idxs = k" and "\<forall>ii\<in>set idxs. ii < length points"
    and "constantViaLagrange (map (\<lambda>ii. points ! ii) idxs) = Inr c"
  shows "\<exists>cs. solveForIndices points k idxs = Inr cs \<and> length cs = k \<and>
           last cs = \<lparr>frac_n = c, frac_d = 1\<rparr>"
proof -
  let ?pts = "map (\<lambda>ii. points ! ii) idxs"
  have d: "distinct (map px ?pts)" and v: "lagrange_value ?pts = of_int c"
    using assms(4) by (auto simp: constantViaLagrange_char split: if_splits)
  from d have d': "distinct (map (\<lambda>ii. px (points ! ii)) idxs)" by (simp add: comp_def)
  from solveForIndices_spec[OF assms(1,2,3) d'] obtain cs
    where cs: "solveForIndices points k idxs = Inr cs" "length cs = k"
      "\<forall>c<k. frac_inv (cs ! c)" "val (last cs) = lagrange_value ?pts"
    by blast
  have "cs \<noteq> []" using cs(2) assms(1) by auto
  then have "last cs = cs ! (k - 1)" using cs(2) by (simp add: last_conv_nth)
  then have fi: "frac_inv (last cs)" using cs(3) assms(1) by simp
  have "last cs = \<lparr>frac_n = c, frac_d = 1\<rparr>"
    by (rule frac_inv_val_inject) (use fi cs(4) v in simp_all)
  with cs(1,2) show ?thesis by blast
qed

theorem lagrange_gauss_agree_witness:
  "\<exists>cs. solveForIndices [\<lparr>px = 1, py = 10\<rparr>, \<lparr>px = 2, py = 21\<rparr>, \<lparr>px = 3, py = 38\<rparr>, \<lparr>px = 4, py = 0\<rparr>]
          3 [0, 1, 2] = Inr cs \<and>
        length cs = 3 \<and> last cs = \<lparr>frac_n = 5, frac_d = 1\<rparr>"
proof -
  have a: "constantViaLagrange
      (map (\<lambda>ii. [\<lparr>px = 1, py = 10\<rparr>, \<lparr>px = 2, py = 21\<rparr>, \<lparr>px = 3, py = 38\<rparr>, \<lparr>px = 4, py = 0\<rparr>] ! ii)
         [0, 1, 2]) = Inr 5"
    by code_simp
  show ?thesis
    by (rule lagrange_gauss_agree [OF _ _ _ a]) simp_all
qed

end
